theory Spec2Isabelle
  imports Complex_Main "HOL-Library.List_Lexorder"
begin

section \<open>The concurrence matrix of scotus/app.js\<close>

subsection \<open>Data of the loaded artifact\<close>

text \<open>
  A JavaScript object used as a dictionary is an association list with the properties in
  the order \<open>Object.keys\<close> enumerates them; a well-formed object has each key once.
  The vote codes and the terms are whole numbers of the JSON artifact.
\<close>

type_synonym 'v obj = "(string \<times> 'v) list"

definition keys :: "'v obj \<Rightarrow> string list" where
  "keys ob = map fst ob"

definition wf_obj :: "'v obj \<Rightarrow> bool" where
  "wf_obj ob = distinct (map fst ob)"

record justice_info =
  j_name :: string
  j_firstTerm :: int
  j_lastTerm :: int
  j_party :: "string option"

record case_rec =
  c_id :: string
  c_term :: int
  c_votes :: "int obj"

record dataset =
  d_cases :: "case_rec list"
  d_justices :: "justice_info obj"

subsection \<open>Filter state and the active justices\<close>

text \<open>
  The later revision of the file adds the justice filter (\<open>selectedJustices\<close>, where
  \<open>null\<close> means all) and the threshold \<open>minCases\<close>; the first revision is the
  case \<open>selectedJustices = null\<close>, \<open>minCases = 1\<close>.
\<close>

definition filterCases :: "dataset \<Rightarrow> int \<Rightarrow> int \<Rightarrow> case_rec list" where
  "filterCases data yearStart yearEnd =
     filter (\<lambda>c. c_term c \<ge> yearStart \<and> c_term c \<le> yearEnd) (d_cases data)"

text \<open>A \<open>Set\<close> of strings, in insertion order.\<close>

definition setAdd :: "string list \<Rightarrow> string \<Rightarrow> string list" where
  "setAdd s j = (if j \<in> set s then s else s @ [j])"

definition justiceSetOf :: "case_rec list \<Rightarrow> string list" where
  "justiceSetOf cs = fold (\<lambda>c s. fold (\<lambda>j s. setAdd s j) (keys (c_votes c)) s) cs []"

text \<open>\<open>data.justices[a]?.firstTerm || 0\<close>\<close>

definition firstTermOr0 :: "dataset \<Rightarrow> string \<Rightarrow> int" where
  "firstTermOr0 data a =
     (case map_of (d_justices data) a of None \<Rightarrow> 0 | Some info \<Rightarrow> j_firstTerm info)"

text \<open>
  The comparator handed to \<open>sort\<close>. \<open>String.prototype.localeCompare\<close> is the host's
  collation; it is the parameter \<open>lc\<close> (negative, zero or positive). It is applied to
  the two identifiers.
\<close>

definition compareJustices :: "(string \<Rightarrow> string \<Rightarrow> int) \<Rightarrow> dataset \<Rightarrow> string \<Rightarrow> string \<Rightarrow> int" where
  "compareJustices lc data a b =
     (let aFirst = firstTermOr0 data a; bFirst = firstTermOr0 data b
      in if aFirst \<noteq> bFirst then aFirst - bFirst else lc a b)"

text \<open>
  \<open>Array.prototype.sort\<close> with a comparator is a stable sort; for a consistent
  comparator every stable sort gives the same list, here by insertion.
\<close>

fun insertBy :: "('a \<Rightarrow> 'a \<Rightarrow> int) \<Rightarrow> 'a \<Rightarrow> 'a list \<Rightarrow> 'a list" where
  "insertBy cmp x [] = [x]"
| "insertBy cmp x (y # ys) = (if cmp x y \<le> 0 then x # y # ys else y # insertBy cmp x ys)"

definition sortBy :: "('a \<Rightarrow> 'a \<Rightarrow> int) \<Rightarrow> 'a list \<Rightarrow> 'a list" where
  "sortBy cmp xs = foldr (insertBy cmp) xs []"

definition getAllJusticesInRange :: "(string \<Rightarrow> string \<Rightarrow> int) \<Rightarrow> dataset \<Rightarrow> case_rec list \<Rightarrow> string list" where
  "getAllJusticesInRange lc data cs = sortBy (compareJustices lc data) (justiceSetOf cs)"

definition getActiveJustices ::
  "(string \<Rightarrow> string \<Rightarrow> int) \<Rightarrow> dataset \<Rightarrow> string set option \<Rightarrow> case_rec list \<Rightarrow> string list" where
  "getActiveJustices lc data selectedJustices cs =
     (let allJustices = getAllJusticesInRange lc data cs
      in case selectedJustices of
           None \<Rightarrow> allJustices
         | Some sel \<Rightarrow> filter (\<lambda>j. j \<in> sel) allJustices)"

subsection \<open>calculateConcurrence\<close>

text \<open>
  A cell is created as \<open>{ agreed: 0, total: 0 }\<close>; the last pass of
  \<open>calculateConcurrence\<close> adds \<open>rate\<close>, which is \<open>null\<close> (here \<open>None\<close>) when the
  pair has no common case. The quotient \<open>agreed / total\<close> is kept exact.
\<close>

record cell =
  agreed :: nat
  total :: nat
  rate :: "rat option"

type_synonym matrix = "cell list list"

definition newCell :: cell where
  "newCell = \<lparr>agreed = 0, total = 0, rate = None\<rparr>"

definition initMatrix :: "nat \<Rightarrow> matrix" where
  "initMatrix n = replicate n (replicate n newCell)"

text \<open>\<open>new Map(justices.map((j, i) => [j, i]))\<close>: a later entry replaces an earlier one.\<close>

fun indexFrom :: "nat \<Rightarrow> string list \<Rightarrow> (string \<rightharpoonup> nat) \<Rightarrow> (string \<rightharpoonup> nat)" where
  "indexFrom i [] m = m"
| "indexFrom i (j # js) m = indexFrom (Suc i) js (m(j \<mapsto> i))"

definition justiceIndex :: "string list \<Rightarrow> (string \<rightharpoonup> nat)" where
  "justiceIndex justices = indexFrom 0 justices Map.empty"

definition incTotal :: "matrix \<Rightarrow> nat \<Rightarrow> nat \<Rightarrow> matrix" where
  "incTotal m a b = m[a := (m ! a)[b := (m ! a ! b)\<lparr>total := total (m ! a ! b) + 1\<rparr>]]"

definition incAgreed :: "matrix \<Rightarrow> nat \<Rightarrow> nat \<Rightarrow> matrix" where
  "incAgreed m a b = m[a := (m ! a)[b := (m ! a ! b)\<lparr>agreed := agreed (m ! a ! b) + 1\<rparr>]]"

text \<open>
  The body of the two nested loops, for the voters \<open>vi = voters[i]\<close> and
  \<open>vj = voters[j]\<close>. Both voters passed the filter \<open>justiceIndex.has\<close>, so the
  lookups succeed; the other branch is never taken by \<open>countCase\<close> below.
\<close>

definition pairStep :: "int obj \<Rightarrow> (string \<rightharpoonup> nat) \<Rightarrow> matrix \<Rightarrow> string \<Rightarrow> string \<Rightarrow> matrix" where
  "pairStep vs idx m vi vj =
     (case (idx vi, idx vj) of
        (Some ji, Some jj) \<Rightarrow>
          (let m1 = incTotal (incTotal m ji jj) jj ji
           in if map_of vs vi = map_of vs vj
              then incAgreed (incAgreed m1 ji jj) jj ji
              else m1)
      | _ \<Rightarrow> m)"

text \<open>\<open>for (let j = i; j < voters.length; j++)\<close>: the voter at \<open>i\<close> against the
  voters from position \<open>i\<close> on.\<close>

fun innerLoop :: "int obj \<Rightarrow> (string \<rightharpoonup> nat) \<Rightarrow> matrix \<Rightarrow> string \<Rightarrow> string list \<Rightarrow> matrix" where
  "innerLoop vs idx m vi [] = m"
| "innerLoop vs idx m vi (vj # rest) = innerLoop vs idx (pairStep vs idx m vi vj) vi rest"

text \<open>\<open>for (let i = 0; i < voters.length; i++)\<close>: the inner loop starts at the
  voter itself.\<close>

fun outerLoop :: "int obj \<Rightarrow> (string \<rightharpoonup> nat) \<Rightarrow> matrix \<Rightarrow> string list \<Rightarrow> matrix" where
  "outerLoop vs idx m [] = m"
| "outerLoop vs idx m (vi # rest) = outerLoop vs idx (innerLoop vs idx m vi (vi # rest)) rest"

definition voters :: "(string \<rightharpoonup> nat) \<Rightarrow> case_rec \<Rightarrow> string list" where
  "voters idx c = filter (\<lambda>j. idx j \<noteq> None) (keys (c_votes c))"

definition countCase :: "(string \<rightharpoonup> nat) \<Rightarrow> matrix \<Rightarrow> case_rec \<Rightarrow> matrix" where
  "countCase idx m c = outerLoop (c_votes c) idx m (voters idx c)"

fun countCases :: "(string \<rightharpoonup> nat) \<Rightarrow> matrix \<Rightarrow> case_rec list \<Rightarrow> matrix" where
  "countCases idx m [] = m"
| "countCases idx m (c # cs) = countCases idx (countCase idx m c) cs"

definition setRate :: "cell \<Rightarrow> cell" where
  "setRate c = c\<lparr>rate := (if total c > 0
                            then Some (of_nat (agreed c) / of_nat (total c))
                            else None)\<rparr>"

definition calculateConcurrence :: "case_rec list \<Rightarrow> string list \<Rightarrow> matrix" where
  "calculateConcurrence cs justices =
     map (map setRate)
       (countCases (justiceIndex justices) (initMatrix (length justices)) cs)"

subsection \<open>The scale range of renderMatrix\<close>

text \<open>
  \<open>renderMatrix\<close> returns early, with the message that no cases were found, when there
  is no active justice (\<open>None\<close>). Otherwise it scans the off-diagonal cells from
  \<open>minRate = 1, maxRate = 0\<close> and hands the pair to the colour scale and the legend.
\<close>

definition rangeStep :: "nat \<Rightarrow> matrix \<Rightarrow> nat \<Rightarrow> nat \<Rightarrow> rat \<times> rat \<Rightarrow> rat \<times> rat" where
  "rangeStep minCases m i j acc =
     (case rate (m ! i ! j) of
        Some r \<Rightarrow>
          if i \<noteq> j \<and> total (m ! i ! j) \<ge> minCases
          then (min (fst acc) r, max (snd acc) r)
          else acc
      | None \<Rightarrow> acc)"

definition rangeScan :: "nat \<Rightarrow> matrix \<Rightarrow> nat \<Rightarrow> rat \<times> rat" where
  "rangeScan minCases m n =
     fold (\<lambda>i acc. fold (\<lambda>j acc. rangeStep minCases m i j acc) [0..<n] acc) [0..<n] (1, 0)"

definition renderMatrixRange ::
  "(string \<Rightarrow> string \<Rightarrow> int) \<Rightarrow> dataset \<Rightarrow> int \<Rightarrow> int \<Rightarrow> string set option \<Rightarrow> nat
     \<Rightarrow> (rat \<times> rat) option" where
  "renderMatrixRange lc data yearStart yearEnd selectedJustices minCases =
     (let cs = filterCases data yearStart yearEnd;
          justices = getActiveJustices lc data selectedJustices cs;
          m = calculateConcurrence cs justices
      in if length justices = 0 then None
         else Some (rangeScan minCases m (length justices)))"

section \<open>The preprocessing script\<close>

text \<open>
  The script that builds the artifact from the two CSV files (its file name is not part of
  the sources; its usage text calls it \<open>scripts/preprocess.js\<close>). Strings are lists of
  code units; of the white space of ECMAScript only the ASCII characters are modelled.
\<close>

subsection \<open>Text helpers\<close>

definition isSpace :: "char \<Rightarrow> bool" where
  "isSpace c = (c \<in> {CHR 0x09, CHR 0x0A, CHR 0x0B, CHR 0x0C, CHR 0x0D, CHR 0x20})"

definition isDigit :: "char \<Rightarrow> bool" where
  "isDigit c = (let n = (of_char c :: nat) in 48 \<le> n \<and> n \<le> 57)"

definition isUpper :: "char \<Rightarrow> bool" where
  "isUpper c = (let n = (of_char c :: nat) in 65 \<le> n \<and> n \<le> 90)"

definition isLower :: "char \<Rightarrow> bool" where
  "isLower c = (let n = (of_char c :: nat) in 97 \<le> n \<and> n \<le> 122)"

text \<open>\<open>String.prototype.trim\<close>\<close>

definition trim :: "string \<Rightarrow> string" where
  "trim s = rev (dropWhile isSpace (rev (dropWhile isSpace s)))"

text \<open>An own property is written: an existing one keeps its place, a new one goes last.\<close>

fun objPut :: "'v obj \<Rightarrow> string \<Rightarrow> 'v \<Rightarrow> 'v obj" where
  "objPut [] k v = [(k, v)]"
| "objPut ((k', v') # rest) k v =
     (if k' = k then (k, v) # rest else (k', v') # objPut rest k v)"

text \<open>
  \<open>obj[k] = v\<close> on an object created by the literal \<open>{}\<close>, for a value \<open>v\<close> that is
  a number or a string (the script assigns nothing else). The name \<open>__proto__\<close> is the
  accessor of \<open>Object.prototype\<close>: its setter ignores such a value, so the assignment
  creates no property and the object stays as it is. Every other name writes an own
  property.
\<close>

definition objSet :: "'v obj \<Rightarrow> string \<Rightarrow> 'v \<Rightarrow> 'v obj" where
  "objSet ob k v = (if k = ''__proto__'' then ob else objPut ob k v)"

subsection \<open>parseCSV and parseCSVLine\<close>

text \<open>\<open>content.split(/\r?\n/)\<close>: a line ends at a line feed, and a carriage return
  right before it belongs to the separator.\<close>

fun consFirst :: "char \<Rightarrow> string list \<Rightarrow> string list" where
  "consFirst c [] = [[c]]"
| "consFirst c (l # ls) = (c # l) # ls"

fun splitLines :: "string \<Rightarrow> string list" where
  "splitLines [] = [[]]"
| "splitLines [c] = (if c = CHR 0x0A then [[], []] else [[c]])"
| "splitLines (c # d # rest) =
     (if c = CHR 0x0A then [] # splitLines (d # rest)
      else if c = CHR 0x0D \<and> d = CHR 0x0A then [] # splitLines rest
      else consFirst c (splitLines (d # rest)))"

text \<open>
  The loop of \<open>parseCSVLine\<close> over the rest of the line, with \<open>values\<close>,
  \<open>current\<close> and \<open>inQuotes\<close>. A quote inside quotes that is followed by a quote is
  one literal quote, and the loop skips the second one (\<open>i++\<close>).
\<close>

fun scanLine :: "string list \<Rightarrow> string \<Rightarrow> bool \<Rightarrow> string \<Rightarrow> string list" where
  "scanLine vals current inQuotes [] = vals @ [trim current]"
| "scanLine vals current inQuotes [c] =
     (if c = CHR 0x22 then scanLine vals current (\<not> inQuotes) []
      else if c = CHR '','' \<and> \<not> inQuotes then scanLine (vals @ [trim current]) [] inQuotes []
      else scanLine vals (current @ [c]) inQuotes [])"
| "scanLine vals current inQuotes (c # d # rest) =
     (if c = CHR 0x22 then
        (if inQuotes \<and> d = CHR 0x22 then scanLine vals (current @ [CHR 0x22]) inQuotes rest
         else scanLine vals current (\<not> inQuotes) (d # rest))
      else if c = CHR '','' \<and> \<not> inQuotes
        then scanLine (vals @ [trim current]) [] inQuotes (d # rest)
      else scanLine vals (current @ [c]) inQuotes (d # rest))"

definition parseCSVLine :: "string \<Rightarrow> string list" where
  "parseCSVLine line = scanLine [] [] False line"

text \<open>\<open>row[headers[j]] = values[j]\<close> for every \<open>j\<close>\<close>

definition makeRow :: "string list \<Rightarrow> string list \<Rightarrow> string obj" where
  "makeRow headers vals = fold (\<lambda>(h, v) row. objSet row h v) (zip headers vals) []"

fun rowsLoop :: "string list \<Rightarrow> string list \<Rightarrow> string obj list \<Rightarrow> string obj list" where
  "rowsLoop headers [] rows = rows"
| "rowsLoop headers (l # ls) rows =
     (let line = trim l
      in if line = [] then rowsLoop headers ls rows
         else (let vals = parseCSVLine line
               in if length vals \<noteq> length headers then rowsLoop headers ls rows
                  else rowsLoop headers ls (rows @ [makeRow headers vals])))"

definition parseCSV :: "string \<Rightarrow> string obj list" where
  "parseCSV content =
     (case splitLines content of
        [] \<Rightarrow> []
      | first # others \<Rightarrow> rowsLoop (parseCSVLine first) others [])"

subsection \<open>parseInt and formatJusticeName\<close>

text \<open>
  \<open>parseInt(s, 10)\<close>: leading white space, an optional sign, then the longest run of
  digits; \<open>NaN\<close> (here \<open>None\<close>) when there is no digit. A missing property reads as
  \<open>undefined\<close>, which has no digit either. The value is a whole number; the rounding
  of a number beyond \<open>2^53\<close> is not modelled.
\<close>

definition digitsValue :: "string \<Rightarrow> int" where
  "digitsValue ds = foldl (\<lambda>acc c. 10 * acc + (int (of_char c) - 48)) 0 ds"

definition parseInt :: "string option \<Rightarrow> int option" where
  "parseInt v =
     (case v of
        None \<Rightarrow> None
      | Some str \<Rightarrow>
          (let s = dropWhile isSpace str;
               neg = (s \<noteq> [] \<and> hd s = CHR ''-'');
               s' = (if s \<noteq> [] \<and> (hd s = CHR ''-'' \<or> hd s = CHR ''+'') then tl s else s);
               ds = takeWhile isDigit s'
           in if ds = [] then None
              else Some (if neg then - digitsValue ds else digitsValue ds)))"

text \<open>
  The pattern \<open>/^([A-Z]+)([A-Z][a-z]+)(\d?)$/\<close> matches in one way only: an optional
  last digit, before it the small letters of the surname, before them capitals of which
  the last starts the surname and the others, at least one, are the initials.
\<close>

definition matchName :: "string \<Rightarrow> (string \<times> string \<times> string) option" where
  "matchName s =
     (let suffix = (if s \<noteq> [] \<and> isDigit (last s) then [last s] else []);
          body = (if s \<noteq> [] \<and> isDigit (last s) then butlast s else s);
          lowers = rev (takeWhile isLower (rev body));
          uppers = rev (dropWhile isLower (rev body))
      in if lowers \<noteq> [] \<and> length uppers \<ge> 2 \<and> list_all isUpper uppers
         then Some (butlast uppers, last uppers # lowers, suffix)
         else None)"

definition formatJusticeName :: "string \<Rightarrow> string" where
  "formatJusticeName justiceName =
     (case matchName justiceName of
        Some (initials, lastName, digit) \<Rightarrow>
          (let suffix = (if digit \<noteq> [] then (if digit = ''1'' then '' (I)'' else '' (II)'') else [])
           in concat (map (\<lambda>c. [c, CHR ''.'']) initials) @ '' '' @ lastName @ suffix)
      | None \<Rightarrow> justiceName)"

subsection \<open>processData\<close>

text \<open>
  The table of party codes. \<open>JUSTICE_PARTY[justiceName] || null\<close> is a party code
  exactly for the names of the table; the field \<open>party\<close> of the model holds that code,
  and is \<open>None\<close> where the script stores \<open>null\<close> or, for a name that
  \<open>Object.prototype\<close> defines, a value that is no party code.
\<close>

definition JUSTICE_PARTY :: "string obj" where
  "JUSTICE_PARTY =
   [(''JJay'', ''F''), (''JRutledge'', ''F''), (''WCushing'', ''F''), (''JWilson'', ''F''),
     (''JBlair'', ''F''), (''JIredell'', ''F''), (''TJohnson'', ''F''),
     (''WPaterson'', ''F''), (''SChase'', ''F''), (''OEllsworth'', ''F''),
     (''BWashington'', ''F''), (''AMoore'', ''F''), (''JMarshall'', ''F''),
     (''WJohnson'', ''DR''), (''HBLivingston'', ''DR''), (''TTodd'', ''DR''),
     (''GDuvall'', ''DR''), (''JStory'', ''DR''), (''SThompson'', ''DR''),
     (''RTrimble'', ''DR''), (''JMcLean'', ''D''), (''HBaldwin'', ''D''),
     (''JMWayne'', ''D''), (''RBTaney'', ''D''), (''PPBarbour'', ''D''),
     (''JCatron'', ''D''), (''JMcKinley'', ''D''), (''PVDaniel'', ''D''),
     (''SNelson'', ''W''), (''LWoodbury'', ''D''), (''RCGrier'', ''D''),
     (''BRCurtis'', ''W''), (''JACampbell'', ''D''), (''NClifford'', ''D''),
     (''NHSwayne'', ''R''), (''SFMiller'', ''R''), (''DDavis'', ''R''),
     (''SJField'', ''R''), (''SPChase'', ''R''), (''WStrong'', ''R''),
     (''JPBradley'', ''R''), (''WHunt'', ''R''), (''MRWaite'', ''R''),
     (''JHarlan1'', ''R''), (''WBWoods'', ''R''), (''SMatthews'', ''R''),
     (''HGray'', ''R''), (''SBlatchford'', ''R''), (''LQCLamar'', ''D''),
     (''MWFuller'', ''D''), (''DJBrewer'', ''R''), (''HBBrown'', ''R''),
     (''GShiras'', ''R''), (''HEJackson'', ''R''), (''EDWhite'', ''D''),
     (''RWPeckham'', ''D''), (''JMcKenna'', ''R''), (''OWHolmes'', ''R''),
     (''WRDay'', ''R''), (''WHMoody'', ''R''), (''HHLurton'', ''R''),
     (''CEHughes'', ''R''), (''WVanDevanter'', ''R''), (''JRLamar'', ''R''),
     (''MPitney'', ''R''), (''JCMcReynolds'', ''D''), (''LDBrandeis'', ''D''),
     (''JHClarke'', ''D''), (''WHTaft'', ''R''), (''GSutherland'', ''R''),
     (''PButler'', ''R''), (''ETSanford'', ''R''), (''HFStone'', ''R''),
     (''OJRoberts'', ''R''), (''BNCardozo'', ''R''), (''HLBlack'', ''D''),
     (''SFReed'', ''D''), (''FFrankfurter'', ''D''), (''WODouglas'', ''D''),
     (''FMurphy'', ''D''), (''JFByrnes'', ''D''), (''RHJackson'', ''D''),
     (''WBRutledge'', ''D''), (''HHBurton'', ''D''), (''FMVinson'', ''D''),
     (''TCClark'', ''D''), (''SMinton'', ''D''), (''EWarren'', ''R''),
     (''JHarlan2'', ''R''), (''WJBrennan'', ''R''), (''CEWhittaker'', ''R''),
     (''PStewart'', ''R''), (''BRWhite'', ''D''), (''AJGoldberg'', ''D''),
     (''AFortas'', ''D''), (''TMarshall'', ''D''), (''WEBurger'', ''R''),
     (''HBlackmun'', ''R''), (''LFPowell'', ''R''), (''WHRehnquist'', ''R''),
     (''JPStevens'', ''R''), (''SDOConnor'', ''R''), (''AScalia'', ''R''),
     (''AMKennedy'', ''R''), (''DHSouter'', ''R''), (''CThomas'', ''R''),
     (''RBGinsburg'', ''D''), (''SGBreyer'', ''D''), (''SBreyer'', ''D''),
     (''JGRoberts'', ''R''), (''SAAlito'', ''R''), (''SSotomayor'', ''D''),
     (''EKagan'', ''D''), (''NMGorsuch'', ''R''), (''BMKavanaugh'', ''R''),
     (''ACBarrett'', ''R''), (''KBJackson'', ''D''), (''SOConnor'', ''R''),
     (''JRutledge2'', ''F''), (''LQLamar'', ''D''), (''EDEWhite'', ''D''),
     (''CEHughes1'', ''R''), (''CEHughes2'', ''R''), (''HABlackmun'', ''R'')]"

text \<open>An entry of the map \<open>cases\<close>: \<open>{ term, votes }\<close>.\<close>

record case_entry =
  e_term :: int
  e_votes :: "int obj"

text \<open>A \<open>Map\<close> with string keys is an association list in insertion order.\<close>

definition mapHas :: "(string \<times> 'v) list \<Rightarrow> string \<Rightarrow> bool" where
  "mapHas m k = (map_of m k \<noteq> None)"

text \<open>The entry of a key that is present is an object; \<open>mapModify\<close> changes it in
  place.\<close>

fun mapModify :: "(string \<times> 'v) list \<Rightarrow> string \<Rightarrow> ('v \<Rightarrow> 'v) \<Rightarrow> (string \<times> 'v) list" where
  "mapModify [] k f = []"
| "mapModify ((k', v) # rest) k f =
     (if k' = k then (k', f v) # rest else (k', v) # mapModify rest k f)"

type_synonym pstate = "(string \<times> case_entry) list \<times> (string \<times> justice_info) list"

text \<open>\<open>!x\<close> for a property that is a string or missing\<close>

definition falsy :: "string option \<Rightarrow> bool" where
  "falsy v = (case v of None \<Rightarrow> True | Some s \<Rightarrow> s = [])"

text \<open>The body of the loop over the rows.\<close>

definition processRow :: "pstate \<Rightarrow> string obj \<Rightarrow> pstate" where
  "processRow st row =
     (let cases = fst st; justices = snd st;
          caseId = map_of row ''caseId'';
          term = parseInt (map_of row ''term'');
          justiceName = map_of row ''justiceName'';
          majority = parseInt (map_of row ''majority'')
      in if falsy caseId \<or> term = None \<or> falsy justiceName \<or> majority = None then st
         else if majority \<noteq> Some 1 \<and> majority \<noteq> Some 2 then st
         else
           (let cid = the caseId; t = the term; jn = the justiceName; mj = the majority;
                cases1 = (if \<not> mapHas cases cid
                          then cases @ [(cid, \<lparr>e_term = t, e_votes = []\<rparr>)] else cases);
                cases2 = mapModify cases1 cid (\<lambda>e. e\<lparr>e_votes := objSet (e_votes e) jn mj\<rparr>);
                justices1 =
                  (if \<not> mapHas justices jn
                   then justices @ [(jn, \<lparr>j_name = formatJusticeName jn, j_firstTerm = t,
                                          j_lastTerm = t, j_party = map_of JUSTICE_PARTY jn\<rparr>)]
                   else mapModify justices jn
                          (\<lambda>j. j\<lparr>j_firstTerm := min (j_firstTerm j) t,
                                 j_lastTerm := max (j_lastTerm j) t\<rparr>))
            in (cases2, justices1)))"

definition processData :: "string obj list \<Rightarrow> pstate" where
  "processData rows = fold (\<lambda>row st. processRow st row) rows ([], [])"

text \<open>
  The output: the cases as \<open>{ id, term, votes }\<close>, sorted by term (the sort is stable),
  and the justices as an object.
\<close>

definition buildOutput :: "pstate \<Rightarrow> dataset" where
  "buildOutput st =
     \<lparr>d_cases = sortBy (\<lambda>a b. c_term a - c_term b)
                  (map (\<lambda>(cid, e). \<lparr>c_id = cid, c_term = e_term e, c_votes = e_votes e\<rparr>) (fst st)),
      d_justices = snd st\<rparr>"

section \<open>Notions used in the statements\<close>

subsection \<open>Example inputs of the matrix\<close>

text \<open>
  A collation for the examples: it compares the code units after folding ASCII capitals
  to small letters. On the identifiers used below every collation of Latin letters
  orders them the same way.
\<close>

definition toLower :: "char \<Rightarrow> nat" where
  "toLower c = (let n = of_char c in if 65 \<le> n \<and> n \<le> 90 then n + 32 else n)"

definition foldedCompare :: "string \<Rightarrow> string \<Rightarrow> int" where
  "foldedCompare a b =
     (let a' = map toLower a; b' = map toLower b
      in if a' < b' then - 1 else if a' = b' then 0 else 1)"

text \<open>The four rows of the specification's example: \<open>A\<close> and \<open>B\<close> agree in
  \<open>C1\<close> and differ in \<open>C2\<close>.\<close>

definition exampleData :: dataset where
  "exampleData =
     \<lparr>d_cases =
        [\<lparr>c_id = ''C1'', c_term = 1960, c_votes = [(''A'', 1), (''B'', 1)]\<rparr>,
         \<lparr>c_id = ''C2'', c_term = 1961, c_votes = [(''A'', 1), (''B'', 2)]\<rparr>],
      d_justices =
        [(''A'', \<lparr>j_name = ''A'', j_firstTerm = 1960, j_lastTerm = 1961, j_party = None\<rparr>),
         (''B'', \<lparr>j_name = ''B'', j_firstTerm = 1960, j_lastTerm = 1961, j_party = None\<rparr>)]\<rparr>"

text \<open>Two justices of the same first term; the display names are the ones the
  preprocessing script derives from the identifiers (\<open>tieData_from_rows\<close> below).\<close>

definition tieData :: dataset where
  "tieData =
     \<lparr>d_cases =
        [\<lparr>c_id = ''C1'', c_term = 1950, c_votes = [(''ABa'', 1), (''AAZa'', 2)]\<rparr>],
      d_justices =
        [(''ABa'', \<lparr>j_name = ''A. Ba'', j_firstTerm = 1950, j_lastTerm = 1950, j_party = None\<rparr>),
         (''AAZa'', \<lparr>j_name = ''A.A. Za'', j_firstTerm = 1950, j_lastTerm = 1950, j_party = None\<rparr>)]\<rparr>"

text \<open>
  The order the specification words: ascending first-active period, ties by the
  case-insensitive lexical order of the display names (\<open>info?.name || justiceId\<close> is
  the display name the file shows).
\<close>

definition displayName :: "dataset \<Rightarrow> string \<Rightarrow> string" where
  "displayName data a =
     (case map_of (d_justices data) a of None \<Rightarrow> a | Some info \<Rightarrow> j_name info)"

definition spec_member_le :: "dataset \<Rightarrow> string \<Rightarrow> string \<Rightarrow> bool" where
  "spec_member_le data a b =
     (firstTermOr0 data a < firstTermOr0 data b
      \<or> (firstTermOr0 data a = firstTermOr0 data b
          \<and> map toLower (displayName data a) \<le> map toLower (displayName data b)))"

subsection \<open>Shape and counts of the matrix\<close>

text \<open>A square matrix of side \<open>n\<close>, and an index map into it.\<close>

definition wfm :: "nat \<Rightarrow> matrix \<Rightarrow> bool" where
  "wfm n m = (length m = n \<and> (\<forall>i<n. length (m ! i) = n))"

definition idx_ok :: "nat \<Rightarrow> (string \<rightharpoonup> nat) \<Rightarrow> bool" where
  "idx_ok n idx = (\<forall>k i. idx k = Some i \<longrightarrow> i < n)"

text \<open>What one pair of voters adds to the \<open>total\<close> of the cell \<open>(x, y)\<close>.\<close>

definition hit :: "(string \<rightharpoonup> nat) \<Rightarrow> string \<Rightarrow> string \<Rightarrow> nat \<Rightarrow> nat \<Rightarrow> nat" where
  "hit idx vi vj x y =
     (case (idx vi, idx vj) of
        (Some ji, Some jj) \<Rightarrow>
          (if x = ji \<and> y = jj then 1 else 0) + (if x = jj \<and> y = ji then 1 else 0)
      | _ \<Rightarrow> 0)"

text \<open>The invariants of the counting loops: symmetry, \<open>agreed\<close> at most \<open>total\<close>, and
  the value \<open>k\<close> of both counts in the diagonal cell \<open>a\<close>.\<close>

definition symm :: "nat \<Rightarrow> matrix \<Rightarrow> bool" where
  "symm n m = (\<forall>x<n. \<forall>y<n. agreed (m ! x ! y) = agreed (m ! y ! x)
                           \<and> total (m ! x ! y) = total (m ! y ! x))"

definition bounded :: "nat \<Rightarrow> matrix \<Rightarrow> bool" where
  "bounded n m = (\<forall>x<n. \<forall>y<n. agreed (m ! x ! y) \<le> total (m ! x ! y))"

definition diagInv :: "nat \<Rightarrow> nat \<Rightarrow> nat \<Rightarrow> matrix \<Rightarrow> bool" where
  "diagInv n a k m = (wfm n m \<and> total (m ! a ! a) = k \<and> agreed (m ! a ! a) = k)"

text \<open>The number of cases in which a justice voted.\<close>

definition participated :: "string \<Rightarrow> case_rec list \<Rightarrow> nat" where
  "participated j cs = length (filter (\<lambda>c. j \<in> set (keys (c_votes c))) cs)"

subsection \<open>Records and invariants of the preprocessing script\<close>

text \<open>
  The record a row stands for once it has passed the two guards of the loop, and the two
  updates the loop body makes for it.
\<close>

record vote_record =
  r_case :: string
  r_term :: int
  r_justice :: string
  r_majority :: int

definition acceptRow :: "string obj \<Rightarrow> vote_record option" where
  "acceptRow row =
     (let caseId = map_of row ''caseId'';
          term = parseInt (map_of row ''term'');
          justiceName = map_of row ''justiceName'';
          majority = parseInt (map_of row ''majority'')
      in if falsy caseId \<or> term = None \<or> falsy justiceName \<or> majority = None then None
         else if majority \<noteq> Some 1 \<and> majority \<noteq> Some 2 then None
         else Some \<lparr>r_case = the caseId, r_term = the term,
                     r_justice = the justiceName, r_majority = the majority\<rparr>)"

definition upsertCase :: "(string \<times> case_entry) list \<Rightarrow> vote_record \<Rightarrow> (string \<times> case_entry) list" where
  "upsertCase cases r =
     mapModify
       (if \<not> mapHas cases (r_case r)
        then cases @ [(r_case r, \<lparr>e_term = r_term r, e_votes = []\<rparr>)] else cases)
       (r_case r) (\<lambda>e. e\<lparr>e_votes := objSet (e_votes e) (r_justice r) (r_majority r)\<rparr>)"

definition upsertJustice :: "(string \<times> justice_info) list \<Rightarrow> vote_record \<Rightarrow> (string \<times> justice_info) list" where
  "upsertJustice justices r =
     (if \<not> mapHas justices (r_justice r)
      then justices @ [(r_justice r, \<lparr>j_name = formatJusticeName (r_justice r), j_firstTerm = r_term r,
                             j_lastTerm = r_term r, j_party = map_of JUSTICE_PARTY (r_justice r)\<rparr>)]
      else mapModify justices (r_justice r)
             (\<lambda>j. j\<lparr>j_firstTerm := min (j_firstTerm j) (r_term r),
                    j_lastTerm := max (j_lastTerm j) (r_term r)\<rparr>))"

definition accepted :: "string obj list \<Rightarrow> vote_record list" where
  "accepted rows = List.map_filter acceptRow rows"

text \<open>A field without white space at either end.\<close>

definition trimmed :: "string \<Rightarrow> bool" where
  "trimmed s = (s = [] \<or> (\<not> isSpace (hd s) \<and> \<not> isSpace (last s)))"

text \<open>
  The fields of a line with the quotes resolved and nothing trimmed: the loop of
  \<open>parseCSVLine\<close> with \<open>current\<close> pushed as it is.
\<close>

fun unescapedFields :: "string list \<Rightarrow> string \<Rightarrow> bool \<Rightarrow> string \<Rightarrow> string list" where
  "unescapedFields vals current inQuotes [] = vals @ [current]"
| "unescapedFields vals current inQuotes [c] =
     (if c = CHR 0x22 then unescapedFields vals current (\<not> inQuotes) []
      else if c = CHR '','' \<and> \<not> inQuotes then unescapedFields (vals @ [current]) [] inQuotes []
      else unescapedFields vals (current @ [c]) inQuotes [])"
| "unescapedFields vals current inQuotes (c # d # rest) =
     (if c = CHR 0x22 then
        (if inQuotes \<and> d = CHR 0x22 then unescapedFields vals (current @ [CHR 0x22]) inQuotes rest
         else unescapedFields vals current (\<not> inQuotes) (d # rest))
      else if c = CHR '','' \<and> \<not> inQuotes
        then unescapedFields (vals @ [current]) [] inQuotes (d # rest)
      else unescapedFields vals (current @ [c]) inQuotes (d # rest))"

text \<open>The terms of the accepted records of one justice; the invariants of the two maps.\<close>

definition termsOrdered :: "justice_info \<Rightarrow> bool" where
  "termsOrdered info = (j_firstTerm info \<le> j_lastTerm info)"

definition termsOf :: "string \<Rightarrow> vote_record list \<Rightarrow> int list" where
  "termsOf j recs = map r_term (filter (\<lambda>r. r_justice r = j) recs)"

definition justiceInv :: "vote_record list \<Rightarrow> (string \<times> justice_info) list \<Rightarrow> string \<Rightarrow> bool" where
  "justiceInv recs justices j =
     (if termsOf j recs = [] then map_of justices j = None
      else (\<exists>info. map_of justices j = Some info
              \<and> j_firstTerm info = Min (set (termsOf j recs))
              \<and> j_lastTerm info = Max (set (termsOf j recs))))"

definition caseInv :: "vote_record list \<Rightarrow> (string \<times> case_entry) list \<Rightarrow> string \<Rightarrow> bool" where
  "caseInv recs cases c =
     (case find (\<lambda>r. r_case r = c) recs of
        None \<Rightarrow> map_of cases c = None
      | Some first \<Rightarrow>
          (\<exists>e. map_of cases c = Some e \<and> e_term e = r_term first
             \<and> map_of (e_votes e) ''__proto__'' = None
             \<and> (\<forall>j. j \<noteq> ''__proto__'' \<longrightarrow> map_of (e_votes e) j
                     = map_option r_majority
                         (find (\<lambda>r. r_case r = c \<and> r_justice r = j) (rev recs)))))"

text \<open>
  The rejection rule as the specification words it: the period is an integer numeral and
  the outcome code is exactly \<open>1\<close> or \<open>2\<close>.
\<close>

definition isIntegerText :: "string option \<Rightarrow> bool" where
  "isIntegerText v =
     (case v of
        None \<Rightarrow> False
      | Some s \<Rightarrow>
          (let ds = (if s \<noteq> [] \<and> (hd s = CHR ''-'' \<or> hd s = CHR ''+'') then tl s else s)
           in ds \<noteq> [] \<and> list_all isDigit ds))"

definition spec_rejected :: "string obj \<Rightarrow> bool" where
  "spec_rejected row =
     (falsy (map_of row ''caseId'')
      \<or> \<not> isIntegerText (map_of row ''term'')
      \<or> falsy (map_of row ''justiceName'')
      \<or> (map_of row ''majority'' \<noteq> Some ''1'' \<and> map_of row ''majority'' \<noteq> Some ''2''))"

text \<open>A row with the four columns the script reads.\<close>

definition mkRow :: "string \<Rightarrow> string \<Rightarrow> string \<Rightarrow> string \<Rightarrow> string obj" where
  "mkRow c t j m = [(''caseId'', c), (''term'', t), (''justiceName'', j), (''majority'', m)]"

text \<open>Example inputs: a text with a blank line and a short row, a line with a quoted
  field, and five rows of which the fourth repeats a case and member with a later
  period.\<close>

definition sampleText :: string where
  "sampleText =
     ''caseId,term,justiceName,majority'' @ [CHR 0x0D, CHR 0x0A]
     @ ''C1,1960,A,1'' @ [CHR 0x0A]
     @ ''   '' @ [CHR 0x0A]
     @ ''C1,1960,B'' @ [CHR 0x0A]
     @ '' C2 , 1961 ,A, 2''"

definition quotedLine :: string where
  "quotedLine = [CHR 0x22] @ '' a '' @ [CHR 0x22, CHR 0x22] @ ''b, '' @ [CHR 0x22] @ '' , c''"

definition sampleRows :: "string obj list" where
  "sampleRows =
     [mkRow ''C1'' ''1960'' ''A'' ''1'', mkRow ''C1'' ''1960'' ''B'' ''1'',
      mkRow ''C2'' ''1959'' ''A'' ''2'', mkRow ''C1'' ''1975'' ''B'' ''2'',
      mkRow ''C3'' ''1961'' ''A'' ''1'']"

text \<open>Two rows from which the script builds the dataset \<open>tieData\<close>.\<close>

definition tieRows :: "string obj list" where
  "tieRows = [mkRow ''C1'' ''1950'' ''ABa'' ''1'', mkRow ''C1'' ''1950'' ''AAZa'' ''2'']"

text \<open>Two accepted records of one case; the member of the second is \<open>__proto__\<close>.\<close>

definition protoRows :: "string obj list" where
  "protoRows = [mkRow ''C1'' ''1960'' ''A'' ''1'', mkRow ''C1'' ''1961'' ''__proto__'' ''2'']"

section \<open>Properties of the concurrence matrix\<close>

subsection \<open>The examples evaluated\<close>

lemmas example_defs =
  exampleData_def tieData_def filterCases_def getActiveJustices_def getAllJusticesInRange_def
  sortBy_def justiceSetOf_def keys_def setAdd_def compareJustices_def firstTermOr0_def
  foldedCompare_def toLower_def calculateConcurrence_def justiceIndex_def initMatrix_def
  newCell_def countCase_def voters_def pairStep_def incTotal_def incAgreed_def setRate_def

lemma foldedCompare_le: "foldedCompare a b \<le> 0 \<longleftrightarrow> map toLower a \<le> map toLower b"
  by (auto simp: foldedCompare_def Let_def)

lemma foldedCompare_total: "\<forall>a b. foldedCompare a b \<le> 0 \<or> foldedCompare b a \<le> 0"
  unfolding foldedCompare_le by (simp add: linear)

lemma foldedCompare_trans:
  "\<forall>a b c. foldedCompare a b \<le> 0 \<and> foldedCompare b c \<le> 0 \<longrightarrow> foldedCompare a c \<le> 0"
  unfolding foldedCompare_le by auto

lemma example_cases: "filterCases exampleData 1960 1961 = d_cases exampleData"
  by (simp add: exampleData_def filterCases_def)

lemma example_justices:
  "getActiveJustices foldedCompare exampleData None (d_cases exampleData) = [''A'', ''B'']"
  by (simp add: example_defs)

lemma example_matrix:
  "calculateConcurrence (d_cases exampleData) [''A'', ''B'']
     = [[\<lparr>agreed = 4, total = 4, rate = Some 1\<rparr>, \<lparr>agreed = 1, total = 2, rate = Some (1 / 2)\<rparr>],
        [\<lparr>agreed = 1, total = 2, rate = Some (1 / 2)\<rparr>, \<lparr>agreed = 4, total = 4, rate = Some 1\<rparr>]]"
  by (simp add: example_defs)

subsection \<open>Shape of the matrix and the effect of one pair\<close>

lemma wfm_initMatrix: "wfm n (initMatrix n)"
  by (simp add: wfm_def initMatrix_def)

lemma wfm_incTotal: "wfm n m \<Longrightarrow> wfm n (incTotal m a b)"
  by (cases "a < length m") (auto simp: wfm_def incTotal_def nth_list_update)

lemma wfm_incAgreed: "wfm n m \<Longrightarrow> wfm n (incAgreed m a b)"
  by (cases "a < length m") (auto simp: wfm_def incAgreed_def nth_list_update)

lemma total_incTotal:
  "wfm n m \<Longrightarrow> a < n \<Longrightarrow> b < n \<Longrightarrow> x < n \<Longrightarrow> y < n \<Longrightarrow>
   total (incTotal m a b ! x ! y) = total (m ! x ! y) + (if x = a \<and> y = b then 1 else 0)"
  by (simp add: wfm_def incTotal_def nth_list_update)

lemma agreed_incTotal:
  "wfm n m \<Longrightarrow> a < n \<Longrightarrow> b < n \<Longrightarrow> x < n \<Longrightarrow> y < n \<Longrightarrow>
   agreed (incTotal m a b ! x ! y) = agreed (m ! x ! y)"
  by (simp add: wfm_def incTotal_def nth_list_update)

lemma total_incAgreed:
  "wfm n m \<Longrightarrow> a < n \<Longrightarrow> b < n \<Longrightarrow> x < n \<Longrightarrow> y < n \<Longrightarrow>
   total (incAgreed m a b ! x ! y) = total (m ! x ! y)"
  by (simp add: wfm_def incAgreed_def nth_list_update)

lemma agreed_incAgreed:
  "wfm n m \<Longrightarrow> a < n \<Longrightarrow> b < n \<Longrightarrow> x < n \<Longrightarrow> y < n \<Longrightarrow>
   agreed (incAgreed m a b ! x ! y) = agreed (m ! x ! y) + (if x = a \<and> y = b then 1 else 0)"
  by (simp add: wfm_def incAgreed_def nth_list_update)

lemma wfm_pairStep: "wfm n m \<Longrightarrow> wfm n (pairStep vs idx m vi vj)"
  by (simp add: pairStep_def Let_def wfm_incTotal wfm_incAgreed split: option.splits)

lemma total_twice:
  assumes "wfm n m" "a < n" "b < n" "x < n" "y < n"
  shows "total (incTotal (incTotal m a b) b a ! x ! y)
         = total (m ! x ! y) + ((if x = a \<and> y = b then 1 else 0) + (if x = b \<and> y = a then 1 else 0))"
proof -
  have "total (incTotal (incTotal m a b) b a ! x ! y)
        = total (incTotal m a b ! x ! y) + (if x = b \<and> y = a then 1 else 0)"
    using assms by (intro total_incTotal wfm_incTotal)
  also have "total (incTotal m a b ! x ! y) = total (m ! x ! y) + (if x = a \<and> y = b then 1 else 0)"
    using assms by (intro total_incTotal)
  finally show ?thesis by (simp only: add.assoc)
qed

lemma agreed_twice:
  assumes "wfm n m" "a < n" "b < n" "x < n" "y < n"
  shows "agreed (incAgreed (incAgreed m a b) b a ! x ! y)
         = agreed (m ! x ! y) + ((if x = a \<and> y = b then 1 else 0) + (if x = b \<and> y = a then 1 else 0))"
proof -
  have "agreed (incAgreed (incAgreed m a b) b a ! x ! y)
        = agreed (incAgreed m a b ! x ! y) + (if x = b \<and> y = a then 1 else 0)"
    using assms by (intro agreed_incAgreed wfm_incAgreed)
  also have "agreed (incAgreed m a b ! x ! y) = agreed (m ! x ! y) + (if x = a \<and> y = b then 1 else 0)"
    using assms by (intro agreed_incAgreed)
  finally show ?thesis by (simp only: add.assoc)
qed

lemma agreed_twice_total:
  assumes "wfm n m" "a < n" "b < n" "x < n" "y < n"
  shows "agreed (incTotal (incTotal m a b) b a ! x ! y) = agreed (m ! x ! y)"
proof -
  have "agreed (incTotal (incTotal m a b) b a ! x ! y) = agreed (incTotal m a b ! x ! y)"
    using assms by (intro agreed_incTotal wfm_incTotal)
  also have "\<dots> = agreed (m ! x ! y)"
    using assms by (intro agreed_incTotal)
  finally show ?thesis .
qed

lemma total_twice_agreed:
  assumes "wfm n m" "a < n" "b < n" "x < n" "y < n"
  shows "total (incAgreed (incAgreed m a b) b a ! x ! y) = total (m ! x ! y)"
proof -
  have "total (incAgreed (incAgreed m a b) b a ! x ! y) = total (incAgreed m a b ! x ! y)"
    using assms by (intro total_incAgreed wfm_incAgreed)
  also have "\<dots> = total (m ! x ! y)"
    using assms by (intro total_incAgreed)
  finally show ?thesis .
qed

lemma pairStep_None: "idx vi = None \<or> idx vj = None \<Longrightarrow> pairStep vs idx m vi vj = m"
  by (cases "idx vi"; cases "idx vj") (simp_all add: pairStep_def)

lemma hit_None: "idx vi = None \<or> idx vj = None \<Longrightarrow> hit idx vi vj x y = 0"
  by (cases "idx vi"; cases "idx vj") (simp_all add: hit_def)

lemma pairStep_Some:
  "idx vi = Some ji \<Longrightarrow> idx vj = Some jj \<Longrightarrow>
   pairStep vs idx m vi vj =
     (if map_of vs vi = map_of vs vj
      then incAgreed (incAgreed (incTotal (incTotal m ji jj) jj ji) ji jj) jj ji
      else incTotal (incTotal m ji jj) jj ji)"
  by (simp add: pairStep_def Let_def)

lemma hit_Some:
  "idx vi = Some ji \<Longrightarrow> idx vj = Some jj \<Longrightarrow>
   hit idx vi vj x y = (if x = ji \<and> y = jj then 1 else 0) + (if x = jj \<and> y = ji then 1 else 0)"
  by (simp add: hit_def)

lemma total_pairStep:
  assumes "wfm n m" "idx_ok n idx" "x < n" "y < n"
  shows "total (pairStep vs idx m vi vj ! x ! y) = total (m ! x ! y) + hit idx vi vj x y"
proof (cases "idx vi = None \<or> idx vj = None")
  case True
  then show ?thesis by (simp only: pairStep_None hit_None add_0_right)
next
  case False
  then obtain ji jj where s: "idx vi = Some ji" "idx vj = Some jj" by auto
  have b: "ji < n" "jj < n" using assms(2) s by (auto simp: idx_ok_def)
  have w: "wfm n (incTotal (incTotal m ji jj) jj ji)"
    using assms(1) by (intro wfm_incTotal)
  show ?thesis
  proof (cases "map_of vs vi = map_of vs vj")
    case True
    then have "pairStep vs idx m vi vj
        = incAgreed (incAgreed (incTotal (incTotal m ji jj) jj ji) ji jj) jj ji"
      using pairStep_Some[OF s, of vs m] by simp
    then show ?thesis
      by (simp only: total_twice_agreed[OF w b assms(3,4)] total_twice[OF assms(1) b assms(3,4)]
          hit_Some[OF s])
  next
    case False
    then have "pairStep vs idx m vi vj = incTotal (incTotal m ji jj) jj ji"
      using pairStep_Some[OF s, of vs m] by simp
    then show ?thesis
      by (simp only: total_twice[OF assms(1) b assms(3,4)] hit_Some[OF s])
  qed
qed

lemma agreed_pairStep:
  assumes "wfm n m" "idx_ok n idx" "x < n" "y < n"
  shows "agreed (pairStep vs idx m vi vj ! x ! y) =
         agreed (m ! x ! y) + (if map_of vs vi = map_of vs vj then hit idx vi vj x y else 0)"
proof (cases "idx vi = None \<or> idx vj = None")
  case True
  then show ?thesis by (simp only: pairStep_None hit_None add_0_right if_cancel)
next
  case False
  then obtain ji jj where s: "idx vi = Some ji" "idx vj = Some jj" by auto
  have b: "ji < n" "jj < n" using assms(2) s by (auto simp: idx_ok_def)
  have w: "wfm n (incTotal (incTotal m ji jj) jj ji)"
    using assms(1) by (intro wfm_incTotal)
  show ?thesis
  proof (cases "map_of vs vi = map_of vs vj")
    case True
    then have "pairStep vs idx m vi vj
        = incAgreed (incAgreed (incTotal (incTotal m ji jj) jj ji) ji jj) jj ji"
      using pairStep_Some[OF s, of vs m] by simp
    then show ?thesis using True
      by (simp add: agreed_twice[OF w b assms(3,4)] agreed_twice_total[OF assms(1) b assms(3,4)]
          hit_Some[OF s] del: One_nat_def)
  next
    case False
    then have "pairStep vs idx m vi vj = incTotal (incTotal m ji jj) jj ji"
      using pairStep_Some[OF s, of vs m] by simp
    then show ?thesis using False
      by (simp only: agreed_twice_total[OF assms(1) b assms(3,4)] if_False add_0_right)
  qed
qed

lemma hit_sym: "hit idx vi vj x y = hit idx vi vj y x"
proof (cases "idx vi = None \<or> idx vj = None")
  case True
  then show ?thesis by (simp only: hit_None)
next
  case False
  then obtain ji jj where s: "idx vi = Some ji" "idx vj = Some jj" by auto
  show ?thesis
    by (simp only: hit_Some[OF s] conj_commute[of "y = ji"] conj_commute[of "y = jj"] add.commute)
qed

subsection \<open>Invariants of the counting loops\<close>

lemma voters_indexed: "v \<in> set (voters idx c) \<Longrightarrow> \<exists>i. idx v = Some i"
  by (auto simp: voters_def)

lemma innerLoop_preserves:
  assumes "\<And>m vi vj. Q m \<Longrightarrow> Q (pairStep vs idx m vi vj)"
  shows "Q m \<Longrightarrow> Q (innerLoop vs idx m vi ws)"
  by (induction ws arbitrary: m) (simp_all add: assms)

lemma outerLoop_preserves:
  assumes "\<And>m vi vj. Q m \<Longrightarrow> Q (pairStep vs idx m vi vj)"
  shows "Q m \<Longrightarrow> Q (outerLoop vs idx m ws)"
proof (induction ws arbitrary: m)
  case Nil
  then show ?case by simp
next
  case (Cons w ws)
  have "Q (innerLoop vs idx m w (w # ws))"
    using assms Cons.prems by (rule innerLoop_preserves)
  then show ?case using Cons.IH by simp
qed

lemma countCases_preserves:
  assumes "\<And>vs m vi vj. Q m \<Longrightarrow> Q (pairStep vs idx m vi vj)"
  shows "Q m \<Longrightarrow> Q (countCases idx m cs)"
proof (induction cs arbitrary: m)
  case Nil
  then show ?case by simp
next
  case (Cons c cs)
  have "Q (countCase idx m c)"
    unfolding countCase_def using assms Cons.prems by (rule outerLoop_preserves)
  then show ?case using Cons.IH by simp
qed

subsection \<open>Symmetry\<close>

lemma symm_pairStep:
  assumes "idx_ok n idx" "wfm n m \<and> symm n m"
  shows "wfm n (pairStep vs idx m vi vj) \<and> symm n (pairStep vs idx m vi vj)"
proof
  show "wfm n (pairStep vs idx m vi vj)" using assms by (simp add: wfm_pairStep)
  show "symm n (pairStep vs idx m vi vj)"
    unfolding symm_def
  proof (intro allI impI)
    fix x y assume xy: "x < n" "y < n"
    have w: "wfm n m" and s: "symm n m" using assms(2) by simp_all
    have "agreed (m ! x ! y) = agreed (m ! y ! x)" "total (m ! x ! y) = total (m ! y ! x)"
      using s xy by (simp_all add: symm_def)
    then show "agreed (pairStep vs idx m vi vj ! x ! y) = agreed (pairStep vs idx m vi vj ! y ! x)
        \<and> total (pairStep vs idx m vi vj ! x ! y) = total (pairStep vs idx m vi vj ! y ! x)"
      using hit_sym[of idx vi vj x y]
      by (simp add: total_pairStep[OF w assms(1)] agreed_pairStep[OF w assms(1)] xy)
  qed
qed

lemma indexFrom_range:
  "indexFrom i js m k = Some x \<Longrightarrow> m k = Some x \<or> (i \<le> x \<and> x < i + length js \<and> js ! (x - i) = k)"
proof (induction js arbitrary: i m)
  case Nil
  then show ?case by simp
next
  case (Cons j js)
  from Cons.IH[OF Cons.prems[simplified]] show ?case
    by (auto split: if_splits simp: nth_Cons')
qed

lemma idx_ok_justiceIndex: "idx_ok (length js) (justiceIndex js)"
  unfolding idx_ok_def justiceIndex_def
  by (auto dest: indexFrom_range)

lemma counted_wf_symm:
  "wfm (length js) (countCases (justiceIndex js) (initMatrix (length js)) cs)
   \<and> symm (length js) (countCases (justiceIndex js) (initMatrix (length js)) cs)"
proof (rule countCases_preserves)
  show "wfm (length js) (initMatrix (length js)) \<and> symm (length js) (initMatrix (length js))"
    using wfm_initMatrix[of "length js"] by (simp add: symm_def initMatrix_def)
next
  fix vs m vi vj
  assume "wfm (length js) m \<and> symm (length js) m"
  then show "wfm (length js) (pairStep vs (justiceIndex js) m vi vj)
     \<and> symm (length js) (pairStep vs (justiceIndex js) m vi vj)"
    using idx_ok_justiceIndex symm_pairStep by blast
qed

lemma calc_nth:
  assumes "i < length js" "j < length js"
  shows "calculateConcurrence cs js ! i ! j
         = setRate (countCases (justiceIndex js) (initMatrix (length js)) cs ! i ! j)"
proof -
  have "wfm (length js) (countCases (justiceIndex js) (initMatrix (length js)) cs)"
    using counted_wf_symm by blast
  then show ?thesis using assms by (simp add: calculateConcurrence_def wfm_def)
qed

text \<open>
  C1. The matrix returned by \<open>calculateConcurrence\<close> is symmetric: for all positions
  \<open>i\<close>, \<open>j\<close> of active justices the cells \<open>(i, j)\<close> and \<open>(j, i)\<close> have the same
  \<open>agreed\<close>, the same \<open>total\<close> and the same \<open>rate\<close>, for every list of cases and
  every list of justices.
\<close>

theorem matrix_symmetric:
  assumes "i < length justices" "j < length justices"
  shows "agreed (calculateConcurrence cs justices ! i ! j)
           = agreed (calculateConcurrence cs justices ! j ! i)
       \<and> total (calculateConcurrence cs justices ! i ! j)
           = total (calculateConcurrence cs justices ! j ! i)
       \<and> rate (calculateConcurrence cs justices ! i ! j)
           = rate (calculateConcurrence cs justices ! j ! i)"
proof -
  have "symm (length justices) (countCases (justiceIndex justices) (initMatrix (length justices)) cs)"
    using counted_wf_symm by blast
  then show ?thesis using assms
    by (simp add: calc_nth symm_def setRate_def)
qed

theorem matrix_symmetric_witness:
  "(0::nat) < length [''A'', ''B''] \<and> (1::nat) < length [''A'', ''B'']
   \<and> agreed (calculateConcurrence (d_cases exampleData) [''A'', ''B''] ! 0 ! 1) = 1
   \<and> agreed (calculateConcurrence (d_cases exampleData) [''A'', ''B''] ! 1 ! 0) = 1
   \<and> total (calculateConcurrence (d_cases exampleData) [''A'', ''B''] ! 0 ! 1) = 2
   \<and> total (calculateConcurrence (d_cases exampleData) [''A'', ''B''] ! 1 ! 0) = 2
   \<and> rate (calculateConcurrence (d_cases exampleData) [''A'', ''B''] ! 0 ! 1)
       = rate (calculateConcurrence (d_cases exampleData) [''A'', ''B''] ! 1 ! 0)"
  using matrix_symmetric[of 0 "[''A'', ''B'']" 1 "d_cases exampleData"]
  by (simp add: example_matrix)

subsection \<open>The rate of a cell\<close>

lemma bounded_pairStep:
  assumes "idx_ok n idx" "wfm n m \<and> bounded n m"
  shows "wfm n (pairStep vs idx m vi vj) \<and> bounded n (pairStep vs idx m vi vj)"
proof
  show "wfm n (pairStep vs idx m vi vj)" using assms by (simp add: wfm_pairStep)
  show "bounded n (pairStep vs idx m vi vj)"
    unfolding bounded_def
  proof (intro allI impI)
    fix x y assume xy: "x < n" "y < n"
    have w: "wfm n m" and s: "bounded n m" using assms(2) by simp_all
    have "agreed (m ! x ! y) \<le> total (m ! x ! y)"
      using s xy by (simp add: bounded_def)
    then show "agreed (pairStep vs idx m vi vj ! x ! y) \<le> total (pairStep vs idx m vi vj ! x ! y)"
      by (simp add: total_pairStep[OF w assms(1) xy] agreed_pairStep[OF w assms(1) xy])
  qed
qed

lemma counted_wf_bounded:
  "wfm (length js) (countCases (justiceIndex js) (initMatrix (length js)) cs)
   \<and> bounded (length js) (countCases (justiceIndex js) (initMatrix (length js)) cs)"
proof (rule countCases_preserves)
  show "wfm (length js) (initMatrix (length js)) \<and> bounded (length js) (initMatrix (length js))"
    using wfm_initMatrix[of "length js"] by (simp add: bounded_def initMatrix_def newCell_def)
next
  fix vs m vi vj
  assume "wfm (length js) m \<and> bounded (length js) m"
  then show "wfm (length js) (pairStep vs (justiceIndex js) m vi vj)
     \<and> bounded (length js) (pairStep vs (justiceIndex js) m vi vj)"
    using idx_ok_justiceIndex bounded_pairStep by blast
qed

text \<open>
  C3. For every cell of the computed matrix the rate is defined exactly when
  \<open>total > 0\<close> (otherwise it is the marker \<open>null\<close>), and a defined rate is the
  quotient \<open>agreed / total\<close> and lies between 0 and 1.
\<close>

theorem rate_defined_iff_total_positive:
  assumes "i < length justices" "j < length justices"
  shows "(rate (calculateConcurrence cs justices ! i ! j) \<noteq> None
            \<longleftrightarrow> total (calculateConcurrence cs justices ! i ! j) > 0)
       \<and> (\<forall>r. rate (calculateConcurrence cs justices ! i ! j) = Some r \<longrightarrow>
              r = of_nat (agreed (calculateConcurrence cs justices ! i ! j))
                  / of_nat (total (calculateConcurrence cs justices ! i ! j))
              \<and> 0 \<le> r \<and> r \<le> 1)"
proof -
  let ?c = "countCases (justiceIndex justices) (initMatrix (length justices)) cs ! i ! j"
  have "bounded (length justices)
          (countCases (justiceIndex justices) (initMatrix (length justices)) cs)"
    using counted_wf_bounded by blast
  then have le: "agreed ?c \<le> total ?c"
    using assms by (simp add: bounded_def)
  have eq: "calculateConcurrence cs justices ! i ! j = setRate ?c"
    using assms by (rule calc_nth)
  show ?thesis
  proof (cases "total ?c > 0")
    case True
    have "(of_nat (agreed ?c) :: rat) \<le> of_nat (total ?c)" using le by simp
    then have "(of_nat (agreed ?c) :: rat) / of_nat (total ?c) \<le> 1"
      using True by (simp add: divide_le_eq_1)
    then show ?thesis using True by (simp add: eq setRate_def)
  next
    case False
    then show ?thesis by (simp add: eq setRate_def)
  qed
qed

theorem rate_defined_iff_total_positive_witness:
  "(0::nat) < length [''A'', ''B''] \<and> (1::nat) < length [''A'', ''B'']
   \<and> total (calculateConcurrence (d_cases exampleData) [''A'', ''B''] ! 0 ! 1) = 2
   \<and> rate (calculateConcurrence (d_cases exampleData) [''A'', ''B''] ! 0 ! 1) = Some (1 / 2)
   \<and> (0::rat) \<le> 1 / 2 \<and> (1::rat) / 2 \<le> 1"
  using rate_defined_iff_total_positive[of 0 "[''A'', ''B'']" 1 "d_cases exampleData"]
  by (simp add: example_matrix)

subsection \<open>The diagonal under the counting loops\<close>

lemma indexFrom_notin: "k \<notin> set js \<Longrightarrow> indexFrom i js m k = m k"
  by (induction js arbitrary: i m) simp_all

lemma indexFrom_distinct:
  "distinct js \<Longrightarrow> p < length js \<Longrightarrow> indexFrom i js m (js ! p) = Some (i + p)"
proof (induction js arbitrary: i m p)
  case Nil
  then show ?case by simp
next
  case (Cons j js)
  show ?case
  proof (cases p)
    case 0
    then show ?thesis using Cons.prems by (simp add: indexFrom_notin)
  next
    case (Suc q)
    then show ?thesis using Cons.prems Cons.IH[of q "Suc i"] by simp
  qed
qed

lemma justiceIndex_iff:
  assumes "distinct js" "a < length js"
  shows "justiceIndex js k = Some a \<longleftrightarrow> k = js ! a"
proof
  assume "justiceIndex js k = Some a"
  then show "k = js ! a"
    unfolding justiceIndex_def by (auto dest: indexFrom_range)
next
  assume "k = js ! a"
  then show "justiceIndex js k = Some a"
    unfolding justiceIndex_def using indexFrom_distinct[OF assms, of 0] by simp
qed

lemma twice_indicator:
  "(if P \<and> Q then 1 else 0) + (if Q \<and> P then 1 else 0) = (if P \<and> Q then 2 else (0::nat))"
  by simp

lemma hit_diag:
  assumes "distinct js" "a < length js"
  shows "hit (justiceIndex js) vi vj a a = (if vi = js ! a \<and> vj = js ! a then 2 else 0)"
proof (cases "justiceIndex js vi = None \<or> justiceIndex js vj = None")
  case True
  then have "\<not> (vi = js ! a \<and> vj = js ! a)"
    using justiceIndex_iff[OF assms] by (metis option.distinct(1))
  then show ?thesis using True by (simp only: hit_None if_False)
next
  case False
  then obtain ji jj where s: "justiceIndex js vi = Some ji" "justiceIndex js vj = Some jj" by auto
  have e1: "(a = ji) = (vi = js ! a)"
    using justiceIndex_iff[OF assms, of vi] s(1) by (metis option.inject)
  have e2: "(a = jj) = (vj = js ! a)"
    using justiceIndex_iff[OF assms, of vj] s(2) by (metis option.inject)
  show ?thesis by (simp only: hit_Some[OF s] e1 e2 twice_indicator)
qed

lemma diag_pairStep:
  assumes "distinct js" "a < length js" "diagInv (length js) a k m"
  shows "diagInv (length js) a (k + (if vi = js ! a \<and> vj = js ! a then 2 else 0))
           (pairStep vs (justiceIndex js) m vi vj)"
proof -
  have w: "wfm (length js) m" using assms(3) by (simp add: diagInv_def)
  have t: "total (pairStep vs (justiceIndex js) m vi vj ! a ! a)
           = total (m ! a ! a) + hit (justiceIndex js) vi vj a a"
    using w idx_ok_justiceIndex assms(2) by (intro total_pairStep)
  have g: "agreed (pairStep vs (justiceIndex js) m vi vj ! a ! a)
           = agreed (m ! a ! a)
             + (if map_of vs vi = map_of vs vj then hit (justiceIndex js) vi vj a a else 0)"
    using w idx_ok_justiceIndex assms(2) by (intro agreed_pairStep)
  show ?thesis
    using assms(3) w
    by (auto simp: diagInv_def t g hit_diag[OF assms(1,2)] wfm_pairStep)
qed

lemma diag_innerLoop:
  assumes "distinct js" "a < length js"
  shows "diagInv (length js) a k m \<Longrightarrow>
         diagInv (length js) a (k + (if vi = js ! a then 2 * count_list ws (js ! a) else 0))
           (innerLoop vs (justiceIndex js) m vi ws)"
proof (induction ws arbitrary: k m)
  case Nil
  then show ?case by simp
next
  case (Cons w ws)
  from Cons.IH[OF diag_pairStep[OF assms Cons.prems, of vi w vs]]
  show ?case by (auto simp: add.assoc)
qed

lemma diag_outerLoop:
  assumes "distinct js" "a < length js"
  shows "distinct ws \<Longrightarrow> diagInv (length js) a k m \<Longrightarrow>
         diagInv (length js) a (k + (if js ! a \<in> set ws then 2 else 0))
           (outerLoop vs (justiceIndex js) m ws)"
proof (induction ws arbitrary: k m)
  case Nil
  then show ?case by simp
next
  case (Cons w ws)
  have c: "(if w = js ! a then 2 * count_list (w # ws) (js ! a) else 0)
           = (if w = js ! a then 2 else 0)"
    using Cons.prems(1) by (auto simp: count_list_0_iff)
  have d: "distinct ws" and n: "w \<notin> set ws" using Cons.prems(1) by simp_all
  have e: "(if w = js ! a then 2 else 0) + (if js ! a \<in> set ws then 2 else 0)
           = (if js ! a \<in> set (w # ws) then 2 else (0::nat))"
    using n by auto
  from Cons.IH[OF d diag_innerLoop[OF assms Cons.prems(2), where vi = w and vs = vs and ws = "w # ws"]]
  show ?case unfolding c outerLoop.simps add.assoc e .
qed

lemma diag_countCases:
  assumes "distinct js" "a < length js"
  shows "\<forall>c\<in>set cs. wf_obj (c_votes c) \<Longrightarrow> diagInv (length js) a k m \<Longrightarrow>
         diagInv (length js) a (k + 2 * participated (js ! a) cs)
           (countCases (justiceIndex js) m cs)"
proof (induction cs arbitrary: k m)
  case Nil
  then show ?case by (simp add: participated_def)
next
  case (Cons c cs)
  have dv: "distinct (voters (justiceIndex js) c)"
    using Cons.prems(1) by (simp add: voters_def keys_def wf_obj_def)
  have mem: "js ! a \<in> set (voters (justiceIndex js) c) \<longleftrightarrow> js ! a \<in> set (keys (c_votes c))"
    using justiceIndex_iff[OF assms, of "js ! a"] by (auto simp: voters_def)
  have "diagInv (length js) a (k + (if js ! a \<in> set (keys (c_votes c)) then 2 else 0))
          (countCase (justiceIndex js) m c)"
    unfolding countCase_def using diag_outerLoop[OF assms dv Cons.prems(2)] by (simp add: mem)
  from Cons.IH[OF _ this] Cons.prems(1)
  show ?case by (auto simp: participated_def)
qed

lemma diag_counted:
  assumes "distinct js" "a < length js" "\<forall>c\<in>set cs. wf_obj (c_votes c)"
  shows "diagInv (length js) a (2 * participated (js ! a) cs)
           (countCases (justiceIndex js) (initMatrix (length js)) cs)"
proof -
  have "diagInv (length js) a 0 (initMatrix (length js))"
    using wfm_initMatrix[of "length js"] assms(2)
    by (simp add: diagInv_def initMatrix_def newCell_def)
  from diag_countCases[OF assms(1,2,3) this] show ?thesis by simp
qed

subsection \<open>The sorted list of active justices\<close>

lemma set_insertBy: "set (insertBy cmp x ys) = insert x (set ys)"
  by (induction ys) auto

lemma distinct_insertBy: "distinct ys \<Longrightarrow> x \<notin> set ys \<Longrightarrow> distinct (insertBy cmp x ys)"
  by (induction ys) (auto simp: set_insertBy)

lemma set_sortBy: "set (sortBy cmp xs) = set xs"
  unfolding sortBy_def by (induction xs) (simp_all add: set_insertBy)

lemma distinct_sortBy: "distinct xs \<Longrightarrow> distinct (sortBy cmp xs)"
  unfolding sortBy_def
proof (induction xs)
  case Nil
  then show ?case by simp
next
  case (Cons x xs)
  have "x \<notin> set (foldr (insertBy cmp) xs [])"
    using Cons.prems set_sortBy[of cmp xs] by (simp add: sortBy_def)
  then show ?case using Cons by (simp add: distinct_insertBy)
qed

lemma sorted_insertBy:
  assumes tot: "\<And>a b. cmp a b \<le> 0 \<or> cmp b a \<le> 0"
      and trans: "\<And>a b c. cmp a b \<le> 0 \<Longrightarrow> cmp b c \<le> 0 \<Longrightarrow> cmp a c \<le> 0"
  shows "sorted_wrt (\<lambda>a b. cmp a b \<le> 0) ys \<Longrightarrow> sorted_wrt (\<lambda>a b. cmp a b \<le> 0) (insertBy cmp x ys)"
proof (induction ys)
  case Nil
  then show ?case by simp
next
  case (Cons y ys)
  show ?case
  proof (cases "cmp x y \<le> 0")
    case True
    then have "\<forall>z\<in>set ys. cmp x z \<le> 0"
      using Cons.prems trans by auto
    then show ?thesis using True Cons.prems by simp
  next
    case False
    then have "cmp y x \<le> 0" using tot[of x y] by simp
    then show ?thesis using False Cons by (auto simp: set_insertBy)
  qed
qed

lemma sorted_sortBy:
  assumes tot: "\<And>a b. cmp a b \<le> 0 \<or> cmp b a \<le> 0"
      and trans: "\<And>a b c. cmp a b \<le> 0 \<Longrightarrow> cmp b c \<le> 0 \<Longrightarrow> cmp a c \<le> 0"
  shows "sorted_wrt (\<lambda>a b. cmp a b \<le> 0) (sortBy cmp xs)"
  unfolding sortBy_def
  by (induction xs) (simp_all add: sorted_insertBy[OF tot trans])

lemma compareJustices_le:
  "compareJustices lc data a b \<le> 0 \<longleftrightarrow>
     firstTermOr0 data a < firstTermOr0 data b
     \<or> (firstTermOr0 data a = firstTermOr0 data b \<and> lc a b \<le> 0)"
  by (auto simp: compareJustices_def Let_def)

lemma distinct_setAdd: "distinct s \<Longrightarrow> distinct (setAdd s j)"
  by (simp add: setAdd_def)

lemma set_setAdd: "set (setAdd s j) = insert j (set s)"
  by (auto simp: setAdd_def)

lemma distinct_fold_setAdd: "distinct s \<Longrightarrow> distinct (fold (\<lambda>j s. setAdd s j) ks s)"
  by (induction ks arbitrary: s) (simp_all add: distinct_setAdd)

lemma set_fold_setAdd: "set (fold (\<lambda>j s. setAdd s j) ks s) = set ks \<union> set s"
  by (induction ks arbitrary: s) (auto simp: set_setAdd)

lemma distinct_fold_cases:
  "distinct s \<Longrightarrow> distinct (fold (\<lambda>c s. fold (\<lambda>j s. setAdd s j) (keys (c_votes c)) s) cs s)"
  by (induction cs arbitrary: s) (simp_all add: distinct_fold_setAdd)

lemma set_fold_cases:
  "set (fold (\<lambda>c s. fold (\<lambda>j s. setAdd s j) (keys (c_votes c)) s) cs s)
     = (\<Union>c\<in>set cs. set (keys (c_votes c))) \<union> set s"
  by (induction cs arbitrary: s) (auto simp: set_fold_setAdd)

lemma distinct_justiceSetOf: "distinct (justiceSetOf cs)"
  unfolding justiceSetOf_def by (rule distinct_fold_cases) simp

lemma set_justiceSetOf: "set (justiceSetOf cs) = (\<Union>c\<in>set cs. set (keys (c_votes c)))"
  unfolding justiceSetOf_def by (simp add: set_fold_cases)

lemma distinct_getActiveJustices: "distinct (getActiveJustices lc data sel cs)"
  by (cases sel)
     (simp_all add: getActiveJustices_def getAllJusticesInRange_def Let_def
        distinct_sortBy distinct_justiceSetOf)

lemma set_getActiveJustices:
  "set (getActiveJustices lc data sel cs)
     = {j \<in> (\<Union>c\<in>set cs. set (keys (c_votes c))). case sel of None \<Rightarrow> True | Some s \<Rightarrow> j \<in> s}"
  by (cases sel)
     (auto simp: getActiveJustices_def getAllJusticesInRange_def Let_def
        set_sortBy set_justiceSetOf)

lemma participated_pos: "j \<in> (\<Union>c\<in>set cs. set (keys (c_votes c))) \<Longrightarrow> participated j cs > 0"
  by (auto simp: participated_def filter_empty_conv)

text \<open>
  C5 (as amended). The list of active justices is ordered ascending by first term (0 for
  an identifier without metadata); justices of the same first term are ordered by the
  collation \<open>localeCompare\<close> of their identifiers, for every collation that is total and
  transitive. The claim as written orders ties by the display names, which the
  comparator never reads.
\<close>

theorem active_justices_ordered:
  assumes tot: "\<forall>a b. lc a b \<le> 0 \<or> lc b a \<le> 0"
      and trans: "\<forall>a b c. lc a b \<le> 0 \<and> lc b c \<le> 0 \<longrightarrow> lc a c \<le> 0"
  shows "sorted_wrt
           (\<lambda>a b. firstTermOr0 data a < firstTermOr0 data b
                  \<or> (firstTermOr0 data a = firstTermOr0 data b \<and> lc a b \<le> 0))
           (getActiveJustices lc data selectedJustices cs)"
proof -
  let ?cmp = "compareJustices lc data"
  have t: "\<And>a b. ?cmp a b \<le> 0 \<or> ?cmp b a \<le> 0"
    using tot by (auto simp: compareJustices_le)
  have r: "\<And>a b c. ?cmp a b \<le> 0 \<Longrightarrow> ?cmp b c \<le> 0 \<Longrightarrow> ?cmp a c \<le> 0"
    using trans unfolding compareJustices_le by (smt (verit, best))
  have "sorted_wrt (\<lambda>a b. ?cmp a b \<le> 0) (getAllJusticesInRange lc data cs)"
    unfolding getAllJusticesInRange_def using t r by (rule sorted_sortBy)
  then have "sorted_wrt (\<lambda>a b. ?cmp a b \<le> 0) (getActiveJustices lc data selectedJustices cs)"
    by (cases selectedJustices) (simp_all add: getActiveJustices_def Let_def sorted_wrt_filter)
  then show ?thesis by (simp only: compareJustices_le)
qed

theorem active_justices_ordered_witness:
  "getActiveJustices foldedCompare tieData None (filterCases tieData 1900 2000) = [''AAZa'', ''ABa'']
   \<and> sorted_wrt
        (\<lambda>a b. firstTermOr0 tieData a < firstTermOr0 tieData b
               \<or> (firstTermOr0 tieData a = firstTermOr0 tieData b \<and> foldedCompare a b \<le> 0))
        (getActiveJustices foldedCompare tieData None (filterCases tieData 1900 2000))"
proof
  show "getActiveJustices foldedCompare tieData None (filterCases tieData 1900 2000) = [''AAZa'', ''ABa'']"
    by (simp add: example_defs)
  show "sorted_wrt
        (\<lambda>a b. firstTermOr0 tieData a < firstTermOr0 tieData b
               \<or> (firstTermOr0 tieData a = firstTermOr0 tieData b \<and> foldedCompare a b \<le> 0))
        (getActiveJustices foldedCompare tieData None (filterCases tieData 1900 2000))"
    using foldedCompare_total foldedCompare_trans by (rule active_justices_ordered)
qed

theorem display_name_order_counterexample:
  "\<not> sorted_wrt (spec_member_le tieData)
       (getActiveJustices foldedCompare tieData None (filterCases tieData 1900 2000))"
  by (simp add: example_defs spec_member_le_def displayName_def)

subsection \<open>Diagonal cells of the rendered matrix\<close>

text \<open>
  C10. For every dataset whose vote objects are well formed and every filter, the
  diagonal cell of an active justice has \<open>total\<close> and \<open>agreed\<close> equal to twice the number
  of selected cases in which the justice voted; an active justice voted in at least one
  selected case, so the rate of the cell is 1.
\<close>

theorem diagonal_counts_twice:
  assumes "\<forall>c\<in>set (d_cases data). wf_obj (c_votes c)"
      and "cs = filterCases data yearStart yearEnd"
      and "justices = getActiveJustices lc data selectedJustices cs"
      and "i < length justices"
  shows "total (calculateConcurrence cs justices ! i ! i) = 2 * participated (justices ! i) cs
       \<and> agreed (calculateConcurrence cs justices ! i ! i) = 2 * participated (justices ! i) cs
       \<and> participated (justices ! i) cs > 0
       \<and> rate (calculateConcurrence cs justices ! i ! i) = Some 1"
proof -
  have d: "distinct justices" using assms(3) by (simp add: distinct_getActiveJustices)
  have w: "\<forall>c\<in>set cs. wf_obj (c_votes c)" using assms(1,2) by (simp add: filterCases_def)
  have "justices ! i \<in> set justices" using assms(4) by simp
  then have "justices ! i \<in> (\<Union>c\<in>set cs. set (keys (c_votes c)))"
    unfolding assms(3) set_getActiveJustices by simp
  then have p: "participated (justices ! i) cs > 0" by (rule participated_pos)
  show ?thesis
    using diag_counted[OF d assms(4) w] assms(4) p
    by (simp add: calc_nth diagInv_def setRate_def)
qed

theorem diagonal_counts_twice_witness:
  "(0::nat) < length (getActiveJustices foldedCompare exampleData None (filterCases exampleData 1960 1961))
   \<and> participated ''A'' (filterCases exampleData 1960 1961) = 2
   \<and> total (calculateConcurrence (filterCases exampleData 1960 1961)
        (getActiveJustices foldedCompare exampleData None (filterCases exampleData 1960 1961)) ! 0 ! 0) = 4
   \<and> agreed (calculateConcurrence (filterCases exampleData 1960 1961)
        (getActiveJustices foldedCompare exampleData None (filterCases exampleData 1960 1961)) ! 0 ! 0) = 4
   \<and> rate (calculateConcurrence (filterCases exampleData 1960 1961)
        (getActiveJustices foldedCompare exampleData None (filterCases exampleData 1960 1961)) ! 0 ! 0) = Some 1"
proof -
  have p: "participated ''A'' (d_cases exampleData) = 2"
    by (simp add: participated_def exampleData_def keys_def)
  have w: "\<forall>c\<in>set (d_cases exampleData). wf_obj (c_votes c)"
    by (simp add: exampleData_def wf_obj_def)
  show ?thesis
    using diagonal_counts_twice[where i = 0 and yearStart = 1960 and yearEnd = 1961
        and lc = foldedCompare and selectedJustices = None, OF w refl refl] p
    by (simp add: example_cases example_justices)
qed

subsection \<open>Self-pairs\<close>

text \<open>
  C2. The claim is that no case ever increments a diagonal cell. The inner loop starts at
  \<open>j = i\<close>, so each voter is paired with itself: for one case with the single voter
  \<open>A\<close>, the cell \<open>(0, 0)\<close> ends with \<open>total = 2\<close> and \<open>agreed = 2\<close>.
\<close>

theorem diagonal_cell_is_incremented:
  "calculateConcurrence [\<lparr>c_id = ''C1'', c_term = 1960, c_votes = [(''A'', 1)]\<rparr>] [''A'']
     = [[\<lparr>agreed = 2, total = 2, rate = Some 1\<rparr>]]"
  by (simp add: calculateConcurrence_def justiceIndex_def initMatrix_def newCell_def
      countCase_def voters_def keys_def pairStep_def incTotal_def incAgreed_def setRate_def)

subsection \<open>The scale range when no cell qualifies\<close>

text \<open>
  C4. The claim is that an explicit empty-range condition is reported when no
  off-diagonal cell qualifies. With one active justice, and with two justices whose two
  common cases are below the threshold 3, the scan ends where it started: the range
  handed on is \<open>minRate = 1, maxRate = 0\<close>.
\<close>

theorem empty_scan_gives_inverted_range:
  "renderMatrixRange foldedCompare exampleData 1960 1961 (Some {''A''}) 1 = Some (1, 0)
   \<and> renderMatrixRange foldedCompare exampleData 1960 1961 None 3 = Some (1, 0)"
  by (simp add: renderMatrixRange_def rangeScan_def rangeStep_def example_defs)

section \<open>Properties of the preprocessing script\<close>

subsection \<open>The examples evaluated\<close>

lemmas pre_defs =
  mkRow_def processData_def processRow_def parseInt_def falsy_def isSpace_def isDigit_def
  digitsValue_def mapHas_def formatJusticeName_def matchName_def isUpper_def isLower_def
  objSet_def Let_def

lemma party_unknown:
  "map_of JUSTICE_PARTY ''A'' = None" "map_of JUSTICE_PARTY ''B'' = None"
  "map_of JUSTICE_PARTY ''ABa'' = None" "map_of JUSTICE_PARTY ''AAZa'' = None"
  by code_simp+

lemma tieData_from_rows: "buildOutput (processData tieRows) = tieData"
  by (simp add: tieRows_def tieData_def buildOutput_def sortBy_def pre_defs party_unknown)

lemma sample_accepted:
  "accepted sampleRows =
     [\<lparr>r_case = ''C1'', r_term = 1960, r_justice = ''A'', r_majority = 1\<rparr>,
      \<lparr>r_case = ''C1'', r_term = 1960, r_justice = ''B'', r_majority = 1\<rparr>,
      \<lparr>r_case = ''C2'', r_term = 1959, r_justice = ''A'', r_majority = 2\<rparr>,
      \<lparr>r_case = ''C1'', r_term = 1975, r_justice = ''B'', r_majority = 2\<rparr>,
      \<lparr>r_case = ''C3'', r_term = 1961, r_justice = ''A'', r_majority = 1\<rparr>]"
  by (simp add: sampleRows_def accepted_def List.map_filter_def acceptRow_def mkRow_def
      parseInt_def falsy_def isSpace_def isDigit_def digitsValue_def Let_def)

lemma sample_processData:
  "processData sampleRows =
     ([(''C1'', \<lparr>e_term = 1960, e_votes = [(''A'', 1), (''B'', 2)]\<rparr>),
       (''C2'', \<lparr>e_term = 1959, e_votes = [(''A'', 2)]\<rparr>),
       (''C3'', \<lparr>e_term = 1961, e_votes = [(''A'', 1)]\<rparr>)],
      [(''A'', \<lparr>j_name = ''A'', j_firstTerm = 1959, j_lastTerm = 1961, j_party = None\<rparr>),
       (''B'', \<lparr>j_name = ''B'', j_firstTerm = 1960, j_lastTerm = 1975, j_party = None\<rparr>)])"
  by (simp add: sampleRows_def pre_defs party_unknown)

subsection \<open>The parser\<close>

lemma dropWhile_head: "dropWhile P xs = [] \<or> \<not> P (hd (dropWhile P xs))"
  using hd_dropWhile[of P xs] by blast

lemma trimmed_trim: "trimmed (trim s)"
proof -
  let ?t = "dropWhile isSpace s"
  let ?r = "dropWhile isSpace (rev ?t)"
  show ?thesis
  proof (cases "?r = []")
    case True
    then show ?thesis by (simp add: trimmed_def trim_def)
  next
    case False
    then have h: "\<not> isSpace (hd ?r)" using dropWhile_head[of isSpace "rev ?t"] by blast
    have l: "last (rev ?r) = hd ?r" using False by (simp add: last_rev)
    obtain zs where z: "rev ?t = zs @ ?r"
      by (metis takeWhile_dropWhile_id)
    have tne: "?t \<noteq> []" using False by (metis dropWhile.simps(1) rev.simps(1))
    then have ht: "\<not> isSpace (hd ?t)" using dropWhile_head[of isSpace s] by blast
    have "?t = rev ?r @ rev zs" using z by (metis rev_append rev_rev_ident)
    then have "hd (rev ?r) = hd ?t" using False by (metis hd_append2 rev_is_Nil_conv)
    then show ?thesis using h l ht False by (simp add: trimmed_def trim_def)
  qed
qed

lemma dropWhile_keeps: "xs \<noteq> [] \<Longrightarrow> \<not> P (hd xs) \<Longrightarrow> dropWhile P xs = xs"
  by (cases xs) simp_all

lemma trim_trimmed: "trimmed s \<Longrightarrow> trim s = s"
proof (cases "s = []")
  case True
  then show ?thesis by (simp add: trim_def)
next
  case False
  assume "trimmed s"
  then have h: "\<not> isSpace (hd s)" and l: "\<not> isSpace (last s)"
    using False by (simp_all add: trimmed_def)
  have a: "dropWhile isSpace s = s" using False h by (rule dropWhile_keeps)
  have r: "rev s \<noteq> []" using False by simp
  have "hd (rev s) = last s" using False by (simp add: hd_rev)
  then have "\<not> isSpace (hd (rev s))" using l by simp
  with r have b: "dropWhile isSpace (rev s) = rev s" by (rule dropWhile_keeps)
  show ?thesis by (simp add: trim_def a b)
qed

lemma trim_idem: "trim (trim s) = trim s"
  by (rule trim_trimmed) (rule trimmed_trim)

lemma scanLine_trimmed:
  "\<forall>v\<in>set vals. trimmed v \<Longrightarrow> \<forall>v\<in>set (scanLine vals current inQuotes rest). trimmed v"
  by (induction vals current inQuotes rest rule: scanLine.induct)
     (simp_all add: trimmed_trim)

lemma parseCSVLine_trimmed: "v \<in> set (parseCSVLine line) \<Longrightarrow> trim v = v"
  using scanLine_trimmed[of "[]" "[]" False line]
  by (simp add: parseCSVLine_def trim_trimmed)

lemma scanLine_unescaped:
  "scanLine (map trim raws) current inQuotes rest
     = map trim (unescapedFields raws current inQuotes rest)"
  by (induction raws current inQuotes rest rule: unescapedFields.induct) simp_all

lemma parseCSVLine_unescaped: "parseCSVLine line = map trim (unescapedFields [] [] False line)"
  using scanLine_unescaped[of "[]" "[]" False line] by (simp add: parseCSVLine_def)

lemma splitLines_nonempty: "splitLines s \<noteq> []"
proof (induction s rule: splitLines.induct)
  case 1
  then show ?case by simp
next
  case (2 c)
  then show ?case by simp
next
  case (3 c d rest)
  have "consFirst c xs \<noteq> []" for xs by (cases xs) simp_all
  then show ?case by simp
qed

lemma rowsLoop_eq:
  "rowsLoop headers ls rows
     = rows @ map (makeRow headers)
         (filter (\<lambda>vals. length vals = length headers)
            (map parseCSVLine (filter (\<lambda>l. l \<noteq> []) (map trim ls))))"
  by (induction ls arbitrary: rows) (simp_all add: Let_def)

text \<open>
  C8. The rows \<open>parseCSV\<close> returns are, in order, the lines after the header that are
  not blank once trimmed and whose field count equals the header's; every other line is
  dropped and the rest is still parsed. The fields \<open>parseCSVLine\<close> returns are the
  unescaped fields, each trimmed, so none has white space at either end.
\<close>

theorem parseCSV_drops_and_trims:
  "(\<exists>first others. splitLines content = first # others
      \<and> parseCSV content
          = map (makeRow (parseCSVLine first))
              (filter (\<lambda>vals. length vals = length (parseCSVLine first))
                 (map parseCSVLine (filter (\<lambda>l. l \<noteq> []) (map trim others)))))
   \<and> parseCSVLine line = map trim (unescapedFields [] [] False line)
   \<and> (\<forall>v\<in>set (parseCSVLine line). trim v = v)"
proof (intro conjI)
  obtain first others where s: "splitLines content = first # others"
    using splitLines_nonempty[of content] by (cases "splitLines content") auto
  then have "parseCSV content
          = map (makeRow (parseCSVLine first))
              (filter (\<lambda>vals. length vals = length (parseCSVLine first))
                 (map parseCSVLine (filter (\<lambda>l. l \<noteq> []) (map trim others))))"
    by (simp add: parseCSV_def rowsLoop_eq)
  then show "\<exists>first others. splitLines content = first # others
      \<and> parseCSV content
          = map (makeRow (parseCSVLine first))
              (filter (\<lambda>vals. length vals = length (parseCSVLine first))
                 (map parseCSVLine (filter (\<lambda>l. l \<noteq> []) (map trim others))))"
    using s by blast
  show "parseCSVLine line = map trim (unescapedFields [] [] False line)"
    by (rule parseCSVLine_unescaped)
  show "\<forall>v\<in>set (parseCSVLine line). trim v = v"
    by (simp add: parseCSVLine_trimmed)
qed

theorem parseCSV_drops_and_trims_witness:
  "parseCSV sampleText = [mkRow ''C1'' ''1960'' ''A'' ''1'', mkRow ''C2'' ''1961'' ''A'' ''2'']
   \<and> unescapedFields [] [] False quotedLine
       = [[CHR '' '', CHR ''a'', CHR '' '', CHR 0x22, CHR ''b'', CHR '','', CHR '' '', CHR '' ''], '' c'']
   \<and> parseCSVLine quotedLine = [[CHR ''a'', CHR '' '', CHR 0x22, CHR ''b'', CHR '',''], ''c'']
   \<and> trim ''c'' = ''c''"
proof -
  have u: "unescapedFields [] [] False quotedLine
       = [[CHR '' '', CHR ''a'', CHR '' '', CHR 0x22, CHR ''b'', CHR '','', CHR '' '', CHR '' ''], '' c'']"
    by (simp add: quotedLine_def)
  have p: "parseCSV sampleText = [mkRow ''C1'' ''1960'' ''A'' ''1'', mkRow ''C2'' ''1961'' ''A'' ''2'']"
    by (simp add: sampleText_def parseCSV_def parseCSVLine_def trim_def isSpace_def makeRow_def
        objSet_def mkRow_def Let_def)
  show ?thesis
    using parseCSV_drops_and_trims[where content = sampleText and line = quotedLine] u p
    by (simp add: trim_def isSpace_def)
qed

subsection \<open>Rejected rows\<close>

lemma processRow_eq:
  "processRow st row =
     (case acceptRow row of
        None \<Rightarrow> st
      | Some r \<Rightarrow> (upsertCase (fst st) r, upsertJustice (snd st) r))"
  by (simp add: processRow_def acceptRow_def upsertCase_def upsertJustice_def Let_def)

lemma processData_snoc: "processData (rows @ [row]) = processRow (processData rows) row"
  by (simp add: processData_def)

lemma accepted_snoc:
  "accepted (rows @ [row]) = accepted rows @ (case acceptRow row of None \<Rightarrow> [] | Some r \<Rightarrow> [r])"
  by (simp add: accepted_def List.map_filter_def split: option.splits)

lemma map_of_mapModify:
  "map_of (mapModify m k f) k' = (if k' = k then map_option f (map_of m k) else map_of m k')"
  by (induction m) auto

lemma map_of_objPut: "map_of (objPut ob k v) k' = (if k' = k then Some v else map_of ob k')"
  by (induction ob) auto

lemma keys_objPut: "set (map fst (objPut ob k v)) = insert k (set (map fst ob))"
proof (induction ob)
  case Nil
  then show ?case by simp
next
  case (Cons p ob)
  obtain k' v' where p: "p = (k', v')" by (cases p)
  show ?case
  proof (cases "k' = k")
    case True
    then show ?thesis using p by simp
  next
    case False
    have "set (map fst (objPut (p # ob) k v)) = insert k' (set (map fst (objPut ob k v)))"
      using p False by simp
    also have "\<dots> = insert k' (insert k (set (map fst ob)))"
      by (simp only: Cons.IH)
    finally show ?thesis using p by auto
  qed
qed

lemma distinct_objPut: "distinct (map fst ob) \<Longrightarrow> distinct (map fst (objPut ob k v))"
proof (induction ob)
  case Nil
  then show ?case by simp
next
  case (Cons p ob)
  obtain k' v' where p: "p = (k', v')" by (cases p)
  show ?case
  proof (cases "k' = k")
    case True
    then show ?thesis using Cons.prems p by simp
  next
    case False
    have "k' \<notin> set (map fst (objPut ob k v))"
      using Cons.prems p False unfolding keys_objPut by simp
    then show ?thesis using Cons p False by simp
  qed
qed

lemma objSet_proto: "objSet ob ''__proto__'' v = ob"
  by (simp add: objSet_def)

lemma objSet_other: "k \<noteq> ''__proto__'' \<Longrightarrow> objSet ob k v = objPut ob k v"
  by (simp add: objSet_def)

lemma distinct_objSet: "distinct (map fst ob) \<Longrightarrow> distinct (map fst (objSet ob k v))"
  by (cases "k = ''__proto__''") (simp_all add: objSet_def distinct_objPut)

lemma acceptRow_None_iff:
  "acceptRow row = None \<longleftrightarrow>
     falsy (map_of row ''caseId'') \<or> parseInt (map_of row ''term'') = None
     \<or> falsy (map_of row ''justiceName'')
     \<or> (parseInt (map_of row ''majority'') \<noteq> Some 1 \<and> parseInt (map_of row ''majority'') \<noteq> Some 2)"
  by (auto simp: acceptRow_def Let_def)

text \<open>
  C6 (as amended). A row whose case identifier is empty or missing, whose period has no
  leading integer for \<open>parseInt\<close>, whose member identifier is empty or missing, or
  whose outcome code does not read as 1 or 2 under \<open>parseInt\<close>, leaves the state as it
  is, and the result of the whole fold is the same as without the row. A code such as
  \<open>1x\<close> reads as 1 and is accepted.
\<close>

theorem rejected_row_contributes_nothing:
  assumes "falsy (map_of row ''caseId'') \<or> parseInt (map_of row ''term'') = None
     \<or> falsy (map_of row ''justiceName'')
     \<or> (parseInt (map_of row ''majority'') \<noteq> Some 1 \<and> parseInt (map_of row ''majority'') \<noteq> Some 2)"
  shows "processRow st row = st
       \<and> processData (before @ row # after) = processData (before @ after)"
proof -
  have n: "acceptRow row = None" using assms by (simp only: acceptRow_None_iff)
  then have a: "processRow st row = st" for st by (simp add: processRow_eq)
  have "processData (before @ row # after)
        = fold (\<lambda>row st. processRow st row) after (processRow (processData before) row)"
    by (simp add: processData_def)
  then show ?thesis by (simp add: a processData_def)
qed

theorem rejected_row_contributes_nothing_witness:
  "parseInt (map_of (mkRow ''C1'' ''1960'' ''B'' ''9'') ''majority'') = Some 9
   \<and> processData [mkRow ''C1'' ''1960'' ''A'' ''1'', mkRow ''C1'' ''1960'' ''B'' ''9'',
                   mkRow ''C2'' ''1961'' ''A'' ''2'']
     = processData [mkRow ''C1'' ''1960'' ''A'' ''1'', mkRow ''C2'' ''1961'' ''A'' ''2'']"
proof -
  have p: "parseInt (map_of (mkRow ''C1'' ''1960'' ''B'' ''9'') ''majority'') = Some 9"
    by (simp add: pre_defs)
  then have "parseInt (map_of (mkRow ''C1'' ''1960'' ''B'' ''9'') ''majority'') \<noteq> Some 1
      \<and> parseInt (map_of (mkRow ''C1'' ''1960'' ''B'' ''9'') ''majority'') \<noteq> Some 2"
    by simp
  then show ?thesis
    using rejected_row_contributes_nothing[of "mkRow ''C1'' ''1960'' ''B'' ''9''"
        "([], [])" "[mkRow ''C1'' ''1960'' ''A'' ''1'']" "[mkRow ''C2'' ''1961'' ''A'' ''2'']"] p
    by simp
qed

theorem lenient_code_counterexample:
  "spec_rejected (mkRow ''C1'' ''1960'' ''A'' ''1x'')
   \<and> processData [mkRow ''C1'' ''1960'' ''A'' ''1x'']
     = ([(''C1'', \<lparr>e_term = 1960, e_votes = [(''A'', 1)]\<rparr>)],
        [(''A'', \<lparr>j_name = ''A'', j_firstTerm = 1960, j_lastTerm = 1960, j_party = None\<rparr>)])"
  by (simp add: spec_rejected_def pre_defs party_unknown)

subsection \<open>First period and last vote of a case\<close>

lemma map_of_snoc:
  "map_of (m @ [(k, v)]) k' = (case map_of m k' of Some x \<Rightarrow> Some x | None \<Rightarrow> if k' = k then Some v else None)"
  by (simp add: map_add_def split: option.splits)

lemma find_snoc:
  "find P (xs @ [x]) = (case find P xs of Some y \<Rightarrow> Some y | None \<Rightarrow> if P x then Some x else None)"
  by (induction xs) simp_all

lemma find_None_weaker:
  "find P xs = None \<Longrightarrow> (\<And>x. Q x \<Longrightarrow> P x) \<Longrightarrow> find Q (rev xs) = None"
  by (auto simp: find_None_iff)

lemma upsertCase_other:
  "r_case r \<noteq> c \<Longrightarrow> map_of (upsertCase cases r) c = map_of cases c"
  by (simp add: upsertCase_def map_of_mapModify map_of_snoc del: map_of_append split: option.splits)

lemma upsertCase_new:
  "map_of cases (r_case r) = None \<Longrightarrow>
   map_of (upsertCase cases r) (r_case r)
     = Some \<lparr>e_term = r_term r, e_votes = objSet [] (r_justice r) (r_majority r)\<rparr>"
  by (simp add: upsertCase_def map_of_mapModify map_of_snoc mapHas_def del: map_of_append)

lemma upsertCase_old:
  "map_of cases (r_case r) = Some e \<Longrightarrow>
   map_of (upsertCase cases r) (r_case r)
     = Some (e\<lparr>e_votes := objSet (e_votes e) (r_justice r) (r_majority r)\<rparr>)"
  by (simp add: upsertCase_def map_of_mapModify mapHas_def)

text \<open>The votes of a case after one more record of that case.\<close>

lemma votes_step:
  assumes p: "map_of vs ''__proto__'' = None"
      and v: "\<And>j. j \<noteq> ''__proto__'' \<Longrightarrow> map_of vs j = map_option r_majority (find (Q j) old)"
      and q: "\<And>j. Q j r = (r_justice r = j)"
  shows "map_of (objSet vs (r_justice r) (r_majority r)) ''__proto__'' = None
       \<and> (\<forall>j. j \<noteq> ''__proto__'' \<longrightarrow>
             map_of (objSet vs (r_justice r) (r_majority r)) j
               = map_option r_majority (find (Q j) (r # old)))"
proof (cases "r_justice r = ''__proto__''")
  case True
  have "objSet vs (r_justice r) (r_majority r) = vs"
    using True by (simp only: objSet_proto)
  moreover have "find (Q j) (r # old) = find (Q j) old" if "j \<noteq> ''__proto__''" for j
    using that True q[of j] by auto
  ultimately show ?thesis using p v by simp
next
  case False
  then have o: "objSet vs (r_justice r) (r_majority r) = objPut vs (r_justice r) (r_majority r)"
    by (rule objSet_other)
  have a: "map_of (objPut vs (r_justice r) (r_majority r)) ''__proto__'' = None"
    using False p by (auto simp: map_of_objPut)
  have b: "map_of (objPut vs (r_justice r) (r_majority r)) j
             = map_option r_majority (find (Q j) (r # old))" if "j \<noteq> ''__proto__''" for j
  proof (cases "r_justice r = j")
    case True
    then have "Q j r" using q[of j] by simp
    then show ?thesis using True by (simp add: map_of_objPut)
  next
    case False
    then have "\<not> Q j r" using q[of j] by simp
    then show ?thesis using False v[OF that] by (auto simp: map_of_objPut)
  qed
  show ?thesis unfolding o using a b by blast
qed

lemma caseInv_step:
  assumes "caseInv recs cases c"
  shows "caseInv (recs @ [r]) (upsertCase cases r) c"
proof (cases "r_case r = c")
  case False
  then show ?thesis using assms
    by (simp add: caseInv_def find_snoc upsertCase_other split: option.splits)
next
  case True
  let ?Q = "\<lambda>j r. r_case r = c \<and> r_justice r = j"
  have q: "?Q j r = (r_justice r = j)" for j using True by simp
  show ?thesis
  proof (cases "find (\<lambda>r. r_case r = c) recs")
    case None
    then have m: "map_of cases (r_case r) = None" using assms True by (simp add: caseInv_def)
    have u: "map_of (upsertCase cases r) c
             = Some \<lparr>e_term = r_term r, e_votes = objSet [] (r_justice r) (r_majority r)\<rparr>"
      using upsertCase_new[OF m] True by simp
    have n: "find (?Q j) (rev recs) = None" for j
      using None by (rule find_None_weaker) simp
    have "map_of (objSet [] (r_justice r) (r_majority r)) ''__proto__'' = None
       \<and> (\<forall>j. j \<noteq> ''__proto__'' \<longrightarrow>
             map_of (objSet [] (r_justice r) (r_majority r)) j
               = map_option r_majority (find (?Q j) (r # rev recs)))"
      by (rule votes_step) (simp_all add: n q)
    then show ?thesis
      using True None by (simp add: caseInv_def find_snoc u)
  next
    case (Some first)
    then obtain e where e: "map_of cases (r_case r) = Some e" "e_term e = r_term first"
      "map_of (e_votes e) ''__proto__'' = None"
      "\<And>j. j \<noteq> ''__proto__'' \<Longrightarrow> map_of (e_votes e) j
             = map_option r_majority (find (?Q j) (rev recs))"
      using assms True by (auto simp: caseInv_def)
    have u: "map_of (upsertCase cases r) c
             = Some (e\<lparr>e_votes := objSet (e_votes e) (r_justice r) (r_majority r)\<rparr>)"
      using upsertCase_old[OF e(1)] True by simp
    have "map_of (objSet (e_votes e) (r_justice r) (r_majority r)) ''__proto__'' = None
       \<and> (\<forall>j. j \<noteq> ''__proto__'' \<longrightarrow>
             map_of (objSet (e_votes e) (r_justice r) (r_majority r)) j
               = map_option r_majority (find (?Q j) (r # rev recs)))"
      using e(3) e(4) q by (rule votes_step)
    then show ?thesis
      using True Some e(2) by (simp add: caseInv_def find_snoc u)
  qed
qed

lemma caseInv_processData: "caseInv (accepted rows) (fst (processData rows)) c"
proof (induction rows rule: rev_induct)
  case Nil
  then show ?case by (simp add: caseInv_def accepted_def processData_def List.map_filter_def)
next
  case (snoc row rows)
  show ?case
  proof (cases "acceptRow row")
    case None
    then show ?thesis using snoc by (simp add: accepted_snoc processData_snoc processRow_eq)
  next
    case (Some r)
    then show ?thesis using caseInv_step[OF snoc, of r]
      by (simp add: accepted_snoc processData_snoc processRow_eq)
  qed
qed

text \<open>
  What the fold stores, for every row sequence: a case is in the map exactly when some
  accepted record names it, with the period of the first such record; for a member other
  than \<open>__proto__\<close> the code is that of the last accepted record of the case and member,
  and no code is ever stored for the member \<open>__proto__\<close>.
\<close>

lemma stored_period_and_votes:
  "(case find (\<lambda>r. r_case r = c) (accepted rows) of
      None \<Rightarrow> map_of (fst (processData rows)) c = None
    | Some first \<Rightarrow>
        (\<exists>e. map_of (fst (processData rows)) c = Some e \<and> e_term e = r_term first
           \<and> map_of (e_votes e) ''__proto__'' = None
           \<and> (\<forall>j. j \<noteq> ''__proto__'' \<longrightarrow> map_of (e_votes e) j
                   = map_option r_majority
                       (find (\<lambda>r. r_case r = c \<and> r_justice r = j) (rev (accepted rows))))))"
  using caseInv_processData[of rows c] by (simp only: caseInv_def)

text \<open>
  C7. The claim is that the code stored for every case and member is that of the last
  accepted record of the pair. The votes of a case are a plain object, and the
  assignment \<open>votes[justiceName] = majority\<close> stores nothing when the member is
  \<open>__proto__\<close>: of the two accepted records below, both of case \<open>C1\<close>, only the vote
  of \<open>A\<close> is stored, while the map of justices, a \<open>Map\<close>, holds both members. The
  period of the case is the first one seen.
\<close>

theorem proto_member_vote_is_dropped:
  "accepted protoRows
     = [\<lparr>r_case = ''C1'', r_term = 1960, r_justice = ''A'', r_majority = 1\<rparr>,
        \<lparr>r_case = ''C1'', r_term = 1961, r_justice = ''__proto__'', r_majority = 2\<rparr>]
   \<and> fst (processData protoRows) = [(''C1'', \<lparr>e_term = 1960, e_votes = [(''A'', 1)]\<rparr>)]
   \<and> map (fst) (snd (processData protoRows)) = [''A'', ''__proto__'']"
  by (simp add: protoRows_def accepted_def List.map_filter_def acceptRow_def pre_defs)

subsection \<open>First and last term of a justice\<close>

lemma list_all_mapModify:
  "list_all (\<lambda>p. P (snd p)) m \<Longrightarrow> (\<And>v. P v \<Longrightarrow> P (f v)) \<Longrightarrow> list_all (\<lambda>p. P (snd p)) (mapModify m k f)"
  by (induction m) auto

lemma termsOrdered_upsertJustice:
  assumes "list_all (\<lambda>p. termsOrdered (snd p)) justices"
  shows "list_all (\<lambda>p. termsOrdered (snd p)) (upsertJustice justices r)"
proof (cases "mapHas justices (r_justice r)")
  case False
  then show ?thesis using assms by (simp add: upsertJustice_def termsOrdered_def)
next
  case True
  have "list_all (\<lambda>p. termsOrdered (snd p))
          (mapModify justices (r_justice r)
             (\<lambda>j. j\<lparr>j_firstTerm := min (j_firstTerm j) (r_term r),
                    j_lastTerm := max (j_lastTerm j) (r_term r)\<rparr>))"
    using assms by (rule list_all_mapModify) (simp add: termsOrdered_def)
  then show ?thesis using True by (simp add: upsertJustice_def)
qed

lemma termsOrdered_processRow:
  "list_all (\<lambda>p. termsOrdered (snd p)) (snd st) \<Longrightarrow> list_all (\<lambda>p. termsOrdered (snd p)) (snd (processRow st row))"
  by (cases "acceptRow row") (simp_all add: processRow_eq termsOrdered_upsertJustice)

lemma termsOrdered_processData: "list_all (\<lambda>p. termsOrdered (snd p)) (snd (processData rows))"
proof (induction rows rule: rev_induct)
  case Nil
  then show ?case by (simp add: processData_def)
next
  case (snoc row rows)
  then show ?case by (simp add: processData_snoc termsOrdered_processRow)
qed

lemma termsOf_snoc:
  "termsOf j (recs @ [r]) = termsOf j recs @ (if r_justice r = j then [r_term r] else [])"
  by (simp add: termsOf_def)

lemma upsertJustice_other:
  "r_justice r \<noteq> j \<Longrightarrow> map_of (upsertJustice justices r) j = map_of justices j"
  by (simp add: upsertJustice_def map_of_mapModify map_of_snoc del: map_of_append split: option.splits)

lemma upsertJustice_new:
  "map_of justices (r_justice r) = None \<Longrightarrow>
   \<exists>info. map_of (upsertJustice justices r) (r_justice r) = Some info
      \<and> j_firstTerm info = r_term r \<and> j_lastTerm info = r_term r"
  by (simp add: upsertJustice_def map_of_snoc mapHas_def del: map_of_append)

lemma upsertJustice_old:
  "map_of justices (r_justice r) = Some info \<Longrightarrow>
   map_of (upsertJustice justices r) (r_justice r)
     = Some (info\<lparr>j_firstTerm := min (j_firstTerm info) (r_term r),
                  j_lastTerm := max (j_lastTerm info) (r_term r)\<rparr>)"
  by (simp add: upsertJustice_def map_of_mapModify mapHas_def)

lemma justiceInv_step:
  assumes "justiceInv recs justices j"
  shows "justiceInv (recs @ [r]) (upsertJustice justices r) j"
proof (cases "r_justice r = j")
  case False
  then show ?thesis using assms
    by (simp add: justiceInv_def termsOf_snoc upsertJustice_other)
next
  case True
  show ?thesis
  proof (cases "termsOf j recs = []")
    case e: True
    then have "map_of justices (r_justice r) = None" using assms True by (simp add: justiceInv_def)
    from upsertJustice_new[OF this]
    have "\<exists>info. map_of (upsertJustice justices r) j = Some info
            \<and> j_firstTerm info = r_term r \<and> j_lastTerm info = r_term r"
      using True by simp
    then show ?thesis
      using True e by (simp add: justiceInv_def termsOf_snoc)
  next
    case ne: False
    then obtain info where i: "map_of justices (r_justice r) = Some info"
      "j_firstTerm info = Min (set (termsOf j recs))"
      "j_lastTerm info = Max (set (termsOf j recs))"
      using assms True by (auto simp: justiceInv_def)
    have s: "set (termsOf j recs) \<noteq> {}" using ne by simp
    have u: "map_of (upsertJustice justices r) j
             = Some (info\<lparr>j_firstTerm := min (j_firstTerm info) (r_term r),
                          j_lastTerm := max (j_lastTerm info) (r_term r)\<rparr>)"
      using upsertJustice_old[OF i(1)] True by simp
    show ?thesis
      using True ne i(2,3) s
      by (simp add: justiceInv_def termsOf_snoc u min.commute max.commute)
  qed
qed

lemma justiceInv_processData: "justiceInv (accepted rows) (snd (processData rows)) j"
proof (induction rows rule: rev_induct)
  case Nil
  then show ?case
    by (simp add: justiceInv_def termsOf_def accepted_def processData_def List.map_filter_def)
next
  case (snoc row rows)
  show ?case
  proof (cases "acceptRow row")
    case None
    then show ?thesis using snoc by (simp add: accepted_snoc processData_snoc processRow_eq)
  next
    case (Some r)
    then show ?thesis using justiceInv_step[OF snoc, of r]
      by (simp add: accepted_snoc processData_snoc processRow_eq)
  qed
qed

text \<open>
  C9. After the fold every justice has first term at most last term; each step of the
  loop keeps this; the first term is the least and the last term the greatest period of
  the accepted records of the justice.
\<close>

theorem first_term_le_last_term:
  "list_all (\<lambda>p. termsOrdered (snd p)) (snd (processData rows))
   \<and> (list_all (\<lambda>p. termsOrdered (snd p)) (snd st)
        \<longrightarrow> list_all (\<lambda>p. termsOrdered (snd p)) (snd (processRow st row)))
   \<and> (\<forall>j info. map_of (snd (processData rows)) j = Some info \<longrightarrow>
         j_firstTerm info \<le> j_lastTerm info
         \<and> j_firstTerm info = Min (set (termsOf j (accepted rows)))
         \<and> j_lastTerm info = Max (set (termsOf j (accepted rows))))"
proof (intro conjI allI impI)
  show "list_all (\<lambda>p. termsOrdered (snd p)) (snd (processData rows))"
    by (rule termsOrdered_processData)
next
  assume "list_all (\<lambda>p. termsOrdered (snd p)) (snd st)"
  then show "list_all (\<lambda>p. termsOrdered (snd p)) (snd (processRow st row))"
    by (rule termsOrdered_processRow)
next
  fix j info
  assume a: "map_of (snd (processData rows)) j = Some info"
  then have "(j, info) \<in> set (snd (processData rows))" by (rule map_of_SomeD)
  then show "j_firstTerm info \<le> j_lastTerm info"
    using termsOrdered_processData[of rows] by (auto simp: list_all_iff termsOrdered_def)
  show "j_firstTerm info = Min (set (termsOf j (accepted rows)))"
    using justiceInv_processData[of rows j] a by (auto simp: justiceInv_def split: if_splits)
  show "j_lastTerm info = Max (set (termsOf j (accepted rows)))"
    using justiceInv_processData[of rows j] a by (auto simp: justiceInv_def split: if_splits)
qed

theorem first_term_le_last_term_witness:
  "map_of (snd (processData sampleRows)) ''A''
     = Some \<lparr>j_name = ''A'', j_firstTerm = 1959, j_lastTerm = 1961, j_party = None\<rparr>
   \<and> termsOf ''A'' (accepted sampleRows) = [1960, 1959, 1961]
   \<and> Min (set (termsOf ''A'' (accepted sampleRows))) = 1959
   \<and> Max (set (termsOf ''A'' (accepted sampleRows))) = 1961
   \<and> list_all (\<lambda>p. termsOrdered (snd p)) (snd (processData sampleRows))"
  using first_term_le_last_term[where rows = sampleRows and st = "processData []"
      and row = "mkRow ''C1'' ''1960'' ''A'' ''1''"]
  by (simp add: sample_accepted sample_processData termsOf_def termsOrdered_def)

subsection \<open>The vote objects of the artifact\<close>

text \<open>Every vote object the script writes has each member once, which is what the
  statement about the diagonal cells asks of the artifact.\<close>

lemma votes_wf_upsertCase:
  assumes "list_all (\<lambda>p. wf_obj (e_votes (snd p))) cases"
  shows "list_all (\<lambda>p. wf_obj (e_votes (snd p))) (upsertCase cases r)"
proof -
  let ?c1 = "if \<not> mapHas cases (r_case r)
        then cases @ [(r_case r, \<lparr>e_term = r_term r, e_votes = []\<rparr>)] else cases"
  have "list_all (\<lambda>p. (\<lambda>e. wf_obj (e_votes e)) (snd p)) ?c1"
    using assms by (simp add: wf_obj_def)
  then have "list_all (\<lambda>p. (\<lambda>e. wf_obj (e_votes e)) (snd p))
               (mapModify ?c1 (r_case r)
                  (\<lambda>e. e\<lparr>e_votes := objSet (e_votes e) (r_justice r) (r_majority r)\<rparr>))"
    by (rule list_all_mapModify) (simp add: wf_obj_def distinct_objSet)
  then show ?thesis by (simp add: upsertCase_def)
qed

lemma votes_wf_processData: "list_all (\<lambda>p. wf_obj (e_votes (snd p))) (fst (processData rows))"
proof (induction rows rule: rev_induct)
  case Nil
  then show ?case by (simp add: processData_def)
next
  case (snoc row rows)
  then show ?case
    by (cases "acceptRow row") (simp_all add: processData_snoc processRow_eq votes_wf_upsertCase)
qed

lemma votes_wf_buildOutput:
  "\<forall>c\<in>set (d_cases (buildOutput (processData rows))). wf_obj (c_votes c)"
  using votes_wf_processData[of rows]
  by (auto simp: buildOutput_def set_sortBy list_all_iff)

end
